theory Spec2Isabelle
  imports Main
begin

section \<open>Cache-key derivation\<close>

text \<open>
  Go strings are byte sequences; a \<^typ>\<open>string\<close> (a list of 8-bit characters) is
  used for identifiers, paths and file contents alike.

  \<^verbatim>\<open>
  func sanitizeURLForFilename(rawURL string) string {
      return url.PathEscape(rawURL)
  }
  \<close>
\<close>

definition alphanum :: "char \<Rightarrow> bool" where
  "alphanum c \<longleftrightarrow>
     c \<in> set ''abcdefghijklmnopqrstuvwxyzABCDEFGHIJKLMNOPQRSTUVWXYZ0123456789''"

text \<open>
  Modelled from the spec: \<open>url.PathEscape\<close> belongs to Go's standard library
  (package net/url) and is not part of the repository. The spec describes it as
  ``reversible percent-style path escaping''. The model follows the library's
  \<open>shouldEscape\<close> in mode \<open>encodePathSegment\<close>: letters and digits, the marks
  \<open>- _ . ~\<close> and the reserved characters \<open>$ & + : = @\<close> are kept; every other
  byte (also \<open>/ ; , ?\<close> and \<open>%\<close> itself) becomes \<open>%XX\<close> in upper-case hex.
\<close>

definition shouldEscape :: "char \<Rightarrow> bool" where
  "shouldEscape c \<longleftrightarrow> \<not> (alphanum c \<or> c \<in> set ''-_.~'' \<or> c \<in> set ''$&+:=@'')"

definition upperhex :: "nat \<Rightarrow> char" where
  "upperhex n = ''0123456789ABCDEF'' ! n"

fun escape :: "string \<Rightarrow> string" where
  "escape [] = []"
| "escape (c # cs) =
     (if shouldEscape c
      then CHR ''%'' # upperhex (of_char c div 16) # upperhex (of_char c mod 16) # escape cs
      else c # escape cs)"

definition PathEscape :: "string \<Rightarrow> string" where
  "PathEscape s = escape s"

definition sanitizeURLForFilename :: "string \<Rightarrow> string" where
  "sanitizeURLForFilename rawURL = PathEscape rawURL"

text \<open>
  The key is joined to the cache directory with \<open>filepath.Join\<close>, which cleans its
  result: the name \<open>.\<close> gives the cache directory itself and \<open>..\<close> its parent. A
  name can serve as a single path segment, the name of one file inside the
  directory, when it is not empty, is neither of the two dot segments and holds no
  separator.
\<close>

definition usable_segment :: "string \<Rightarrow> bool" where
  "usable_segment name \<longleftrightarrow>
     name \<noteq> [] \<and> name \<noteq> ''.'' \<and> name \<noteq> ''..'' \<and> CHR ''/'' \<notin> set name"

section \<open>The server and the world it runs in\<close>

text \<open>
  The three variants of the server (\<open>server/main.go\<close> and the two unnamed files)
  differ only in how a page is retrieved: through a Selenium WebDriver (one shared
  session, or one session per request that may fail to open) or through
  \<open>http.DefaultClient\<close>. What the outside world answers is an input of the model.
\<close>

datatype selenium_outcome =
    NewRemoteErr          \<comment> \<open>\<open>selenium.NewRemote\<close> fails (per-request session variant only)\<close>
  | GetErr                \<comment> \<open>\<open>wd.Get(rawURL)\<close> returns an error\<close>
  | PageSourceErr         \<comment> \<open>\<open>wd.PageSource()\<close> returns an error\<close>
  | PageSource string     \<comment> \<open>the rendered page\<close>

datatype http_outcome =
    NewRequestErr                 \<comment> \<open>\<open>http.NewRequestWithContext\<close> fails\<close>
  | DoErr                         \<comment> \<open>\<open>http.DefaultClient.Do\<close> fails\<close>
  | Response nat "string option"  \<comment> \<open>status code, and the body unless \<open>io.ReadAll\<close> fails\<close>

datatype backend =
    Selenium "string \<Rightarrow> selenium_outcome"
  | Http "string \<Rightarrow> http_outcome"

datatype write_fault =
    NoFault
  | CreateFails       \<comment> \<open>\<open>os.Create\<close> returns an error\<close>
  | WriteFails nat    \<comment> \<open>\<open>gzipWriter.Write\<close> fails after that many bytes reached the file\<close>
  | CloseFails nat    \<comment> \<open>the flush in \<open>gzipWriter.Close\<close> fails after that many more bytes\<close>

text \<open>
  The fields \<open>cacheDir\<close>, \<open>minifier\<close> and \<open>backend\<close> are those of the Go struct
  \<open>downloadCacheServer\<close> (\<open>backend\<close> stands for \<open>wd\<close>, \<open>seleniumURL\<close> or the
  HTTP client). The remaining fields are the library and operating-system behaviour
  the code calls into, taken as parameters: \<open>filepath.Join\<close>; the gzip codec, split
  into the bytes \<open>gzip.Writer\<close> hands to the file during \<open>Write\<close> and those it
  hands over during \<open>Close\<close>, and the reader (\<open>gzip.NewReader\<close> followed by
  \<open>io.ReadAll\<close>, \<open>None\<close> on any error); and which write to a given path fails.
  The minifier returns \<open>None\<close> when \<open>s.minifier.Bytes\<close> returns an error.
\<close>

record server =
  cacheDir :: string
  minifier :: "string \<Rightarrow> string option"
  backend :: backend
  pathJoin :: "string \<Rightarrow> string \<Rightarrow> string"
  gz_write :: "string \<Rightarrow> string"
  gz_close :: "string \<Rightarrow> string"
  gunzip :: "string \<Rightarrow> string option"
  write_fault :: "string \<Rightarrow> write_fault"

datatype error =
    EmptyURL            \<comment> \<open>codes.InvalidArgument, ``URL cannot be empty''\<close>
  | SessionFailed       \<comment> \<open>codes.Internal, ``failed to open session with WebDriver''\<close>
  | NavigateFailed      \<comment> \<open>codes.Internal, ``failed to navigate to URL with Selenium''\<close>
  | PageSourceFailed    \<comment> \<open>codes.Internal, ``failed to get page source from Selenium''\<close>
  | RequestFailed       \<comment> \<open>codes.Internal, ``failed to create HTTP request''\<close>
  | DownloadFailed      \<comment> \<open>codes.Internal, ``failed to download URL''\<close>
  | BadStatus nat       \<comment> \<open>codes.Internal, ``download failed with status code''\<close>
  | BodyReadFailed      \<comment> \<open>codes.Internal, ``failed to read response body''\<close>
  | OpenFailed          \<comment> \<open>\<open>os.Open\<close> error (never leaves the server)\<close>
  | GzipFailed          \<comment> \<open>gzip reader error (never leaves the server)\<close>
  | CreateFailed        \<comment> \<open>\<open>os.Create\<close> error (logged only)\<close>
  | WriteFailed         \<comment> \<open>\<open>gzipWriter.Write\<close> error (logged only)\<close>

datatype code = InvalidArgument | Internal | Unknown

fun code_of :: "error \<Rightarrow> code" where
  "code_of EmptyURL = InvalidArgument"
| "code_of SessionFailed = Internal"
| "code_of NavigateFailed = Internal"
| "code_of PageSourceFailed = Internal"
| "code_of RequestFailed = Internal"
| "code_of DownloadFailed = Internal"
| "code_of (BadStatus n) = Internal"
| "code_of BodyReadFailed = Internal"
| "code_of e = Unknown"

datatype event =
    EvFetch string            \<comment> \<open>the retrieval backend is invoked for a URL\<close>
  | EvTransform string        \<comment> \<open>the minifier is invoked on these bytes\<close>
  | EvWrite string string     \<comment> \<open>\<open>writeToCache\<close> is invoked with a path and content\<close>

text \<open>
  The mutable world: the files under the cache directory, the lock registry
  \<open>urlLocks\<close> (a \<open>sync.Map\<close> from URL to the address of a \<open>sync.Mutex\<close>), the set
  of mutexes currently locked, the next free address, and a log of the calls made to
  the external collaborators.
\<close>

record state =
  files :: "string \<rightharpoonup> string"
  urlLocks :: "string \<rightharpoonup> nat"
  locked :: "nat set"
  fresh :: nat
  events :: "event list"

section \<open>The persisted artifact store\<close>

text \<open>
  \<^verbatim>\<open>
  func (s *downloadCacheServer) readFromCache(path string) (string, error) {
      file, err := os.Open(path)
      if err != nil { return "", err }
      defer file.Close()
      gzipReader, err := gzip.NewReader(file)
      if err != nil { return "", err }
      defer gzipReader.Close()
      content, err := io.ReadAll(gzipReader)
      if err != nil { return "", err }
      return string(content), nil
  }
  \<close>
\<close>

definition readFromCache :: "server \<Rightarrow> state \<Rightarrow> string \<Rightarrow> error + string" where
  "readFromCache s st path =
     (case files st path of
        None \<Rightarrow> Inl OpenFailed
      | Some blob \<Rightarrow>
          (case gunzip s blob of
             None \<Rightarrow> Inl GzipFailed
           | Some content \<Rightarrow> Inr content))"

text \<open>
  \<^verbatim>\<open>
  func (s *downloadCacheServer) writeToCache(path string, content []byte) error {
      file, err := os.Create(path)
      if err != nil { return err }
      defer file.Close()
      gzipWriter := gzip.NewWriter(file)
      defer gzipWriter.Close()
      _, err = gzipWriter.Write(content)
      return err
  }
  \<close>
  \<open>os.Create\<close> truncates the file. The value returned is the error of
  \<open>gzipWriter.Write\<close> alone: the deferred \<open>gzipWriter.Close()\<close> and
  \<open>file.Close()\<close> run afterwards and their errors are dropped. After a failed
  \<open>Write\<close> the gzip writer's \<open>Close\<close> writes nothing more.
\<close>

definition set_file :: "string \<Rightarrow> string \<Rightarrow> state \<Rightarrow> state" where
  "set_file path blob st = st\<lparr>files := (files st)(path \<mapsto> blob)\<rparr>"

definition writeToCache :: "server \<Rightarrow> string \<Rightarrow> string \<Rightarrow> state \<Rightarrow> error option \<times> state" where
  "writeToCache s path content st =
     (case write_fault s path of
        CreateFails \<Rightarrow> (Some CreateFailed, st)
      | WriteFails n \<Rightarrow>
          (Some WriteFailed, set_file path (take n (gz_write s content)) st)
      | CloseFails n \<Rightarrow>
          (None, set_file path (gz_write s content @ take n (gz_close s content)) st)
      | NoFault \<Rightarrow>
          (None, set_file path (gz_write s content @ gz_close s content) st))"

section \<open>The fetch-transform-store pipeline and the request orchestrator\<close>

text \<open>
  The retrieval step of \<open>downloadAndCache\<close>. Selenium variants:
  \<^verbatim>\<open>
  if err := wd.Get(rawURL); err != nil { return nil, status.Errorf(codes.Internal, ...) }
  time.Sleep(2 * time.Second)
  pageSource, err := wd.PageSource()
  if err != nil { return nil, status.Errorf(codes.Internal, ...) }
  bodyBytes := []byte(pageSource)
  \<close>
  HTTP variant:
  \<^verbatim>\<open>
  httpReq, err := http.NewRequestWithContext(ctx, "GET", rawURL, nil)
  if err != nil { return nil, status.Errorf(codes.Internal, ...) }
  resp, err := http.DefaultClient.Do(httpReq)
  if err != nil { return nil, status.Errorf(codes.Internal, ...) }
  defer resp.Body.Close()
  if resp.StatusCode != http.StatusOK { return nil, status.Errorf(codes.Internal, ...) }
  bodyBytes, err := io.ReadAll(resp.Body)
  if err != nil { return nil, status.Errorf(codes.Internal, ...) }
  \<close>
\<close>

fun fetchPage :: "backend \<Rightarrow> string \<Rightarrow> error + string" where
  "fetchPage (Selenium wd) rawURL =
     (case wd rawURL of
        NewRemoteErr \<Rightarrow> Inl SessionFailed
      | GetErr \<Rightarrow> Inl NavigateFailed
      | PageSourceErr \<Rightarrow> Inl PageSourceFailed
      | PageSource pageSource \<Rightarrow> Inr pageSource)"
| "fetchPage (Http client) rawURL =
     (case client rawURL of
        NewRequestErr \<Rightarrow> Inl RequestFailed
      | DoErr \<Rightarrow> Inl DownloadFailed
      | Response statusCode body \<Rightarrow>
          (if statusCode \<noteq> 200 then Inl (BadStatus statusCode)
           else (case body of
                   None \<Rightarrow> Inl BodyReadFailed
                 | Some bodyBytes \<Rightarrow> Inr bodyBytes)))"

definition log_event :: "event \<Rightarrow> state \<Rightarrow> state" where
  "log_event e st = st\<lparr>events := events st @ [e]\<rparr>"

text \<open>
  The part of \<open>downloadAndCache\<close> that runs while the mutex is held:
  \<^verbatim>\<open>
  if _, err := os.Stat(cacheFilePath); err == nil {
      content, err := s.readFromCache(cacheFilePath)
      if err == nil { return &pb.DownloadCacheResponse{PageContents: content}, nil }
  }
  ... retrieval, see fetchPage ...
  minifiedBytes, err := s.minifier.Bytes("text/html", bodyBytes)
  if err != nil { minifiedBytes = bodyBytes }
  if err := s.writeToCache(cacheFilePath, minifiedBytes); err != nil {
      log.Printf(...)
  } else { log.Printf(...) }
  return &pb.DownloadCacheResponse{PageContents: string(minifiedBytes)}, nil
  \<close>
  Calls to \<open>log.Printf\<close> are not modelled.
\<close>

definition fetchTransformStore ::
  "server \<Rightarrow> string \<Rightarrow> string \<Rightarrow> state \<Rightarrow> (error + string) \<times> state" where
  "fetchTransformStore s rawURL cacheFilePath st =
     (case fetchPage (backend s) rawURL of
        Inl e \<Rightarrow> (Inl e, log_event (EvFetch rawURL) st)
      | Inr bodyBytes \<Rightarrow>
          (let minifiedBytes =
                 (case minifier s bodyBytes of None \<Rightarrow> bodyBytes | Some m \<Rightarrow> m);
               st1 = log_event (EvTransform bodyBytes) (log_event (EvFetch rawURL) st);
               (werr, st2) =
                 writeToCache s cacheFilePath minifiedBytes
                   (log_event (EvWrite cacheFilePath minifiedBytes) st1)
           in (Inr minifiedBytes, st2)))"

definition lockedSection ::
  "server \<Rightarrow> string \<Rightarrow> string \<Rightarrow> state \<Rightarrow> (error + string) \<times> state" where
  "lockedSection s rawURL cacheFilePath st =
     (if cacheFilePath \<in> dom (files st) then
        (case readFromCache s st cacheFilePath of
           Inr content \<Rightarrow> (Inr content, st)
         | Inl err \<Rightarrow> fetchTransformStore s rawURL cacheFilePath st)
      else fetchTransformStore s rawURL cacheFilePath st)"

text \<open>
  \<open>s.urlLocks.LoadOrStore(rawURL, &sync.Mutex{})\<close>: a new, unlocked mutex is
  allocated; it is stored and returned if the key has no entry, otherwise the
  entry's mutex is returned.
\<close>

definition LoadOrStore :: "string \<Rightarrow> state \<Rightarrow> nat \<times> state" where
  "LoadOrStore key st =
     (let new = fresh st;
          st1 = st\<lparr>fresh := Suc new, locked := locked st - {new}\<rparr>
      in (case urlLocks st key of
            Some actual \<Rightarrow> (actual, st1)
          | None \<Rightarrow> (new, st1\<lparr>urlLocks := (urlLocks st)(key \<mapsto> new)\<rparr>)))"

definition Delete :: "string \<Rightarrow> state \<Rightarrow> state" where
  "Delete key st = st\<lparr>urlLocks := (urlLocks st)(key := None)\<rparr>"

definition Unlock :: "nat \<Rightarrow> state \<Rightarrow> state" where
  "Unlock mutex st = st\<lparr>locked := locked st - {mutex}\<rparr>"

text \<open>
  \<^verbatim>\<open>
  func (s *downloadCacheServer) downloadAndCache(rawURL, cacheFilePath string) (...) {
      mu, _ := s.urlLocks.LoadOrStore(rawURL, &sync.Mutex{})
      mutex := mu.(*sync.Mutex)
      mutex.Lock()
      defer mutex.Unlock()
      defer s.urlLocks.Delete(rawURL) // Clean up the map after use
      ...
  }
  \<close>
  Run with no other goroutine active: \<open>mutex.Lock()\<close> on a mutex that is already
  locked never returns, which is the result \<open>None\<close>. Deferred calls run in reverse
  order, so \<open>Delete\<close> runs before \<open>Unlock\<close>.
\<close>

definition downloadAndCache ::
  "server \<Rightarrow> string \<Rightarrow> string \<Rightarrow> state \<Rightarrow> ((error + string) \<times> state) option" where
  "downloadAndCache s rawURL cacheFilePath st =
     (let (mutex, st1) = LoadOrStore rawURL st in
      if mutex \<in> locked st1 then None
      else
        (let st2 = st1\<lparr>locked := insert mutex (locked st1)\<rparr>;
             (r, st3) = lockedSection s rawURL cacheFilePath st2
         in Some (r, Unlock mutex (Delete rawURL st3))))"

text \<open>
  \<^verbatim>\<open>
  func (s *downloadCacheServer) Get(ctx, req) (*pb.DownloadCacheResponse, error) {
      if req.GetUrl() == "" {
          return nil, status.Errorf(codes.InvalidArgument, "URL cannot be empty")
      }
      cacheKey := sanitizeURLForFilename(req.GetUrl())
      cacheFilePath := filepath.Join(s.cacheDir, cacheKey)
      if !req.GetInvalidate() {
          if _, err := os.Stat(cacheFilePath); err == nil {
              content, err := s.readFromCache(cacheFilePath)
              if err != nil {
                  log.Printf("Failed to read from cache, proceeding to download: %v", err)
              } else {
                  return &pb.DownloadCacheResponse{PageContents: content}, nil
              }
          }
      }
      return s.downloadAndCache(req.GetUrl(), cacheFilePath)
  }
  \<close>
\<close>

definition cachePath :: "server \<Rightarrow> string \<Rightarrow> string" where
  "cachePath s url = pathJoin s (cacheDir s) (sanitizeURLForFilename url)"

definition Get ::
  "server \<Rightarrow> string \<Rightarrow> bool \<Rightarrow> state \<Rightarrow> ((error + string) \<times> state) option" where
  "Get s url invalidate st =
     (if url = [] then Some (Inl EmptyURL, st)
      else
        (let cacheFilePath = cachePath s url in
         if \<not> invalidate \<and> cacheFilePath \<in> dom (files st) then
           (case readFromCache s st cacheFilePath of
              Inr content \<Rightarrow> Some (Inr content, st)
            | Inl err \<Rightarrow> downloadAndCache s url cacheFilePath st)
         else downloadAndCache s url cacheFilePath st))"

text \<open>
  A key is held when its registry entry points to a locked mutex: another goroutine
  is inside \<open>downloadAndCache\<close> for that URL.
\<close>

definition held :: "state \<Rightarrow> string \<Rightarrow> bool" where
  "held st key = (case urlLocks st key of None \<Rightarrow> False | Some m \<Rightarrow> m \<in> locked st)"

text \<open>
  The retrieval fails when the backend reports an error or, for the HTTP client, a
  status other than 200.
\<close>

definition fetch_failure :: "backend \<Rightarrow> string \<Rightarrow> bool" where
  "fetch_failure b url =
     (case b of
        Selenium wd \<Rightarrow> (case wd url of PageSource p \<Rightarrow> False | _ \<Rightarrow> True)
      | Http client \<Rightarrow>
          (case client url of
             Response statusCode body \<Rightarrow> statusCode \<noteq> 200 \<or> body = None
           | _ \<Rightarrow> True))"

section \<open>The write, one system call at a time\<close>

text \<open>
  \<open>writeToCache\<close> reaches the file in three steps: \<open>os.Create\<close> truncates it,
  \<open>gzipWriter.Write\<close> writes the first bytes of the stream at the descriptor's
  offset, and the deferred \<open>gzipWriter.Close\<close> writes the rest. A write at an
  offset past the end of the file fills the gap with zero bytes.
\<close>

definition write_at :: "nat \<Rightarrow> string \<Rightarrow> string \<Rightarrow> string" where
  "write_at off bytes blob =
     take off (blob @ replicate (off - length blob) (CHR 0x00)) @ bytes
       @ drop (off + length bytes) blob"

definition pwrite :: "string \<Rightarrow> nat \<Rightarrow> string \<Rightarrow> state \<Rightarrow> state" where
  "pwrite path off bytes st =
     (case files st path of
        None \<Rightarrow> set_file path (write_at off bytes []) st
      | Some blob \<Rightarrow> set_file path (write_at off bytes blob) st)"

definition createStep :: "server \<Rightarrow> string \<Rightarrow> state \<Rightarrow> error option \<times> state" where
  "createStep s path st =
     (case write_fault s path of
        CreateFails \<Rightarrow> (Some CreateFailed, st)
      | _ \<Rightarrow> (None, set_file path [] st))"

definition writeStep ::
  "server \<Rightarrow> string \<Rightarrow> string \<Rightarrow> state \<Rightarrow> error option \<times> nat \<times> state" where
  "writeStep s path content st =
     (case write_fault s path of
        WriteFails n \<Rightarrow>
          (Some WriteFailed, length (take n (gz_write s content)),
           pwrite path 0 (take n (gz_write s content)) st)
      | _ \<Rightarrow>
          (None, length (gz_write s content), pwrite path 0 (gz_write s content) st))"

definition closeStep ::
  "server \<Rightarrow> string \<Rightarrow> string \<Rightarrow> error option \<Rightarrow> nat \<Rightarrow> state \<Rightarrow> state" where
  "closeStep s path content werr off st =
     (case werr of
        Some e \<Rightarrow> st
      | None \<Rightarrow>
          (case write_fault s path of
             CloseFails n \<Rightarrow> pwrite path off (take n (gz_close s content)) st
           | _ \<Rightarrow> pwrite path off (gz_close s content) st))"

text \<open>
  The states the store passes through while one \<open>writeToCache\<close> runs and nothing
  else writes: before the call, after \<open>os.Create\<close>, after \<open>gzipWriter.Write\<close>,
  after \<open>gzipWriter.Close\<close>.
\<close>

definition write_trace :: "server \<Rightarrow> string \<Rightarrow> string \<Rightarrow> state \<Rightarrow> state list" where
  "write_trace s path content st =
     (case createStep s path st of
        (Some e, st1) \<Rightarrow> [st]
      | (None, st1) \<Rightarrow>
          (case writeStep s path content st1 of
             (werr, off, st2) \<Rightarrow> [st, st1, st2, closeStep s path content werr off st2]))"

section \<open>The read, one system call at a time\<close>

text \<open>
  \<open>readFromCache\<close> reaches the file through several system calls: \<open>os.Open\<close>,
  then the read calls that \<open>gzip.NewReader\<close> and \<open>io.ReadAll\<close> issue on the
  descriptor. Each read call returns the bytes that the file holds at that moment
  from the descriptor's offset on, at most as many as were asked for (at least
  one); a call that returns nothing is the end of the file, and what has been
  gathered until then is what the gzip reader decodes. A call is given as the
  number of bytes asked for, less one, and the content of the file at the moment of
  the call. \<open>None\<close>: the calls listed do not reach the end of the file (a gzip
  reader that stops reading before the end of the file does so with an error).
\<close>

fun pull :: "string \<Rightarrow> (nat \<times> string) list \<Rightarrow> string option" where
  "pull got [] = None"
| "pull got ((n, blob) # calls) =
     (if take (Suc n) (drop (length got) blob) = [] then Some got
      else pull (got @ take (Suc n) (drop (length got) blob)) calls)"

definition decode :: "server \<Rightarrow> string \<Rightarrow> error + string" where
  "decode s bytes =
     (case gunzip s bytes of None \<Rightarrow> Inl GzipFailed | Some content \<Rightarrow> Inr content)"

definition readCalls ::
  "server \<Rightarrow> string option \<Rightarrow> (nat \<times> string) list \<Rightarrow> (error + string) option" where
  "readCalls s opened calls =
     (case opened of
        None \<Rightarrow> Some (Inl OpenFailed)
      | Some blob \<Rightarrow> map_option (decode s) (pull [] calls))"

text \<open>
  A read that runs while the store passes through the states \<open>trace\<close>: \<open>os.Open\<close>
  happens in the state numbered \<open>opened_at\<close>, and every read call in the state
  numbered with it; the calls follow each other, so the numbers do not decrease.
\<close>

definition file_at :: "state list \<Rightarrow> string \<Rightarrow> nat \<Rightarrow> string" where
  "file_at trace path at = (case files (trace ! at) path of None \<Rightarrow> [] | Some blob \<Rightarrow> blob)"

definition concurrentRead ::
  "server \<Rightarrow> string \<Rightarrow> state list \<Rightarrow> nat \<Rightarrow> (nat \<times> nat) list \<Rightarrow> (error + string) option"
  where
  "concurrentRead s path trace opened_at calls =
     readCalls s (files (trace ! opened_at) path)
       (map (\<lambda>(n, at). (n, file_at trace path at)) calls)"

definition moments_ok :: "state list \<Rightarrow> nat \<Rightarrow> (nat \<times> nat) list \<Rightarrow> bool" where
  "moments_ok trace opened_at calls \<longleftrightarrow>
     sorted (opened_at # map snd calls)
   \<and> (\<forall>at \<in> set (opened_at # map snd calls). at < length trace)"

text \<open>
  A reader sees a complete stream as the content, and rejects every stream that
  stops short of it (the empty file, a header alone, a stream without its end).
\<close>

definition gz_stream :: "server \<Rightarrow> string \<Rightarrow> string" where
  "gz_stream s content = gz_write s content @ gz_close s content"

definition codec_sound :: "server \<Rightarrow> string \<Rightarrow> bool" where
  "codec_sound s content \<longleftrightarrow>
     gunzip s (gz_stream s content) = Some content \<and>
     (\<forall>n < length (gz_stream s content). gunzip s (take n (gz_stream s content)) = None)"

section \<open>Goroutines\<close>

text \<open>
  Concurrent requests are goroutines that each run \<open>Get\<close>. A goroutine is at one
  of the following points; between two points it performs one access to the shared
  world (the files, the registry, a mutex, the backend). The scheduler picks which
  goroutine moves next.
\<close>

datatype pc =
    AtGet                     \<comment> \<open>entry of \<open>Get\<close>\<close>
  | AtFastRead                \<comment> \<open>\<open>Get\<close>: \<open>os.Stat\<close> succeeded, \<open>readFromCache\<close> is next\<close>
  | AtLoadOrStore             \<comment> \<open>entry of \<open>downloadAndCache\<close>\<close>
  | AtLock nat                \<comment> \<open>\<open>mutex.Lock()\<close> on the mutex at that address\<close>
  | AtStat nat                \<comment> \<open>lock held; \<open>os.Stat\<close> of the double-check is next\<close>
  | AtRead nat                \<comment> \<open>double-check: \<open>readFromCache\<close> is next\<close>
  | AtFetch nat               \<comment> \<open>the backend is about to be invoked\<close>
  | InFetch nat               \<comment> \<open>the backend call is under way\<close>
  | AtCreate nat string       \<comment> \<open>\<open>writeToCache\<close>: \<open>os.Create\<close> is next\<close>
  | AtWrite nat string        \<comment> \<open>\<open>gzipWriter.Write\<close> is next\<close>
  | AtClose nat string "error option" nat
                              \<comment> \<open>deferred \<open>gzipWriter.Close\<close> is next; write error, offset\<close>
  | AtDelete nat "error + string"  \<comment> \<open>deferred \<open>urlLocks.Delete\<close> is next\<close>
  | AtUnlock nat "error + string"  \<comment> \<open>deferred \<open>mutex.Unlock\<close> is next\<close>
  | Done "error + string"     \<comment> \<open>\<open>Get\<close> has returned\<close>

record thread =
  t_url :: string
  t_invalidate :: bool
  t_pc :: pc

definition goto :: "pc \<Rightarrow> thread \<Rightarrow> thread" where
  "goto p t = t\<lparr>t_pc := p\<rparr>"

text \<open>One move of a goroutine; \<open>None\<close> when it cannot move (waiting for a locked
  mutex, or returned).\<close>

definition thread_step :: "server \<Rightarrow> thread \<Rightarrow> state \<Rightarrow> (thread \<times> state) option" where
  "thread_step s t st =
     (let rawURL = t_url t; cacheFilePath = cachePath s rawURL in
      case t_pc t of
        AtGet \<Rightarrow>
          if rawURL = [] then Some (goto (Done (Inl EmptyURL)) t, st)
          else if \<not> t_invalidate t \<and> cacheFilePath \<in> dom (files st)
          then Some (goto AtFastRead t, st)
          else Some (goto AtLoadOrStore t, st)
      | AtFastRead \<Rightarrow>
          (case readFromCache s st cacheFilePath of
             Inr content \<Rightarrow> Some (goto (Done (Inr content)) t, st)
           | Inl err \<Rightarrow> Some (goto AtLoadOrStore t, st))
      | AtLoadOrStore \<Rightarrow>
          (case LoadOrStore rawURL st of (mutex, st1) \<Rightarrow> Some (goto (AtLock mutex) t, st1))
      | AtLock mutex \<Rightarrow>
          if mutex \<in> locked st then None
          else Some (goto (AtStat mutex) t, st\<lparr>locked := insert mutex (locked st)\<rparr>)
      | AtStat mutex \<Rightarrow>
          if cacheFilePath \<in> dom (files st) then Some (goto (AtRead mutex) t, st)
          else Some (goto (AtFetch mutex) t, st)
      | AtRead mutex \<Rightarrow>
          (case readFromCache s st cacheFilePath of
             Inr content \<Rightarrow> Some (goto (AtDelete mutex (Inr content)) t, st)
           | Inl err \<Rightarrow> Some (goto (AtFetch mutex) t, st))
      | AtFetch mutex \<Rightarrow>
          Some (goto (InFetch mutex) t, log_event (EvFetch rawURL) st)
      | InFetch mutex \<Rightarrow>
          (case fetchPage (backend s) rawURL of
             Inl e \<Rightarrow> Some (goto (AtDelete mutex (Inl e)) t, st)
           | Inr bodyBytes \<Rightarrow>
               Some (goto (AtCreate mutex
                       (case minifier s bodyBytes of None \<Rightarrow> bodyBytes | Some m \<Rightarrow> m)) t,
                     log_event (EvTransform bodyBytes) st))
      | AtCreate mutex content \<Rightarrow>
          (case createStep s cacheFilePath (log_event (EvWrite cacheFilePath content) st) of
             (Some e, st1) \<Rightarrow> Some (goto (AtDelete mutex (Inr content)) t, st1)
           | (None, st1) \<Rightarrow> Some (goto (AtWrite mutex content) t, st1))
      | AtWrite mutex content \<Rightarrow>
          (case writeStep s cacheFilePath content st of
             (werr, off, st1) \<Rightarrow> Some (goto (AtClose mutex content werr off) t, st1))
      | AtClose mutex content werr off \<Rightarrow>
          Some (goto (AtDelete mutex (Inr content)) t,
                closeStep s cacheFilePath content werr off st)
      | AtDelete mutex r \<Rightarrow> Some (goto (AtUnlock mutex r) t, Delete rawURL st)
      | AtUnlock mutex r \<Rightarrow> Some (goto (Done r) t, Unlock mutex st)
      | Done r \<Rightarrow> None)"

text \<open>
  The scheduler's choice \<open>i\<close> moves goroutine \<open>i\<close>; a goroutine that cannot move
  stays where it is. A schedule is the list of choices.
\<close>

definition sys_step :: "server \<Rightarrow> nat \<Rightarrow> thread list \<times> state \<Rightarrow> thread list \<times> state" where
  "sys_step s i cfg =
     (case cfg of (ts, st) \<Rightarrow>
        if i < length ts then
          (case thread_step s (ts ! i) st of
             None \<Rightarrow> (ts, st)
           | Some (t', st') \<Rightarrow> (ts[i := t'], st'))
        else (ts, st))"

definition run :: "server \<Rightarrow> nat list \<Rightarrow> thread list \<times> state \<Rightarrow> thread list \<times> state" where
  "run s sched cfg = fold (sys_step s) sched cfg"

text \<open>A goroutine run alone for a number of moves.\<close>

fun run_alone :: "server \<Rightarrow> nat \<Rightarrow> thread \<times> state \<Rightarrow> thread \<times> state" where
  "run_alone s 0 c = c"
| "run_alone s (Suc n) (t, st) =
     (case thread_step s t st of
        None \<Rightarrow> (t, st)
      | Some c \<Rightarrow> run_alone s n c)"

definition request :: "string \<Rightarrow> bool \<Rightarrow> thread" where
  "request url invalidate = \<lparr>t_url = url, t_invalidate = invalidate, t_pc = AtGet\<rparr>"

fun fetching :: "pc \<Rightarrow> bool" where
  "fetching (InFetch m) = True"
| "fetching p = False"

fun is_fetch :: "string \<Rightarrow> event \<Rightarrow> bool" where
  "is_fetch url (EvFetch u) = (u = url)"
| "is_fetch url e = False"

definition fetch_count :: "string \<Rightarrow> state \<Rightarrow> nat" where
  "fetch_count url st = length (filter (is_fetch url) (events st))"

section \<open>Test doubles for concrete runs\<close>

text \<open>
  A stand-in for the gzip codec, with the shape of the real one: a fixed header
  written first, then a self-delimiting body (every content byte behind a \<open>+\<close>,
  closed by a \<open>.\<close>). The reader rejects anything but a complete stream.
\<close>

definition frame :: "string \<Rightarrow> string" where
  "frame content = concat (map (\<lambda>b. [CHR ''+'', b]) content) @ ''.''"

fun unframe :: "string \<Rightarrow> string option" where
  "unframe [] = None"
| "unframe [c] = (if c = CHR ''.'' then Some [] else None)"
| "unframe (c # d # cs) =
     (if c = CHR ''+'' then map_option ((#) d) (unframe cs) else None)"

definition test_gunzip :: "string \<Rightarrow> string option" where
  "test_gunzip blob =
     (case blob of
        g # z # rest \<Rightarrow> if g = CHR ''G'' \<and> z = CHR ''Z'' then unframe rest else None
      | _ \<Rightarrow> None)"

definition test_server ::
  "backend \<Rightarrow> (string \<Rightarrow> string option) \<Rightarrow> write_fault \<Rightarrow> server" where
  "test_server b m fault =
     \<lparr>cacheDir = ''/cache'', minifier = m, backend = b,
      pathJoin = (\<lambda>dir name. dir @ ''/'' @ name),
      gz_write = (\<lambda>content. ''GZ''), gz_close = frame, gunzip = test_gunzip,
      write_fault = (\<lambda>path. fault)\<rparr>"

definition empty_state :: state where
  "empty_state = \<lparr>files = Map.empty, urlLocks = Map.empty, locked = {}, fresh = 0, events = []\<rparr>"

definition with_file :: "string \<Rightarrow> string \<Rightarrow> state" where
  "with_file path blob = set_file path blob empty_state"

definition failing_backend :: backend where
  "failing_backend = Selenium (\<lambda>url. GetErr)"

definition page_backend :: "string \<Rightarrow> backend" where
  "page_backend page = Selenium (\<lambda>url. PageSource page)"

definition failing_minifier :: "string \<Rightarrow> string option" where
  "failing_minifier bytes = None"

definition strip_spaces :: "string \<Rightarrow> string option" where
  "strip_spaces bytes = Some (filter (\<lambda>c. c \<noteq> CHR '' '') bytes)"

text \<open>A number of concurrent \<open>Get(url, false)\<close> calls against an empty cache.\<close>

definition requests :: "nat \<Rightarrow> string \<Rightarrow> thread list \<times> state" where
  "requests n url = (replicate n (request url False), empty_state)"

section \<open>Invariants of concurrent requests for one URL\<close>

text \<open>
  A goroutine is inside the locked section from the moment \<open>mutex.Lock()\<close> has
  returned until \<open>mutex.Unlock()\<close> has run; \<open>pc_mutex\<close> is the mutex it waits
  for or holds, \<open>moves_left\<close> bounds the moves it can still make.
\<close>

fun in_cs :: "pc \<Rightarrow> bool" where
  "in_cs AtGet = False"
| "in_cs AtFastRead = False"
| "in_cs AtLoadOrStore = False"
| "in_cs (AtLock m) = False"
| "in_cs (Done r) = False"
| "in_cs p = True"

fun pc_mutex :: "pc \<Rightarrow> nat option" where
  "pc_mutex AtGet = None"
| "pc_mutex AtFastRead = None"
| "pc_mutex AtLoadOrStore = None"
| "pc_mutex (AtLock m) = Some m"
| "pc_mutex (AtStat m) = Some m"
| "pc_mutex (AtRead m) = Some m"
| "pc_mutex (AtFetch m) = Some m"
| "pc_mutex (InFetch m) = Some m"
| "pc_mutex (AtCreate m c) = Some m"
| "pc_mutex (AtWrite m c) = Some m"
| "pc_mutex (AtClose m c werr off) = Some m"
| "pc_mutex (AtDelete m r) = Some m"
| "pc_mutex (AtUnlock m r) = Some m"
| "pc_mutex (Done r) = None"

fun moves_left :: "pc \<Rightarrow> nat" where
  "moves_left AtGet = 13"
| "moves_left AtFastRead = 12"
| "moves_left AtLoadOrStore = 11"
| "moves_left (AtLock m) = 10"
| "moves_left (AtStat m) = 9"
| "moves_left (AtRead m) = 8"
| "moves_left (AtFetch m) = 7"
| "moves_left (InFetch m) = 6"
| "moves_left (AtCreate m c) = 5"
| "moves_left (AtWrite m c) = 4"
| "moves_left (AtClose m c werr off) = 3"
| "moves_left (AtDelete m r) = 2"
| "moves_left (AtUnlock m r) = 1"
| "moves_left (Done r) = 0"

text \<open>
  Requests for the URL \<open>u\<close> whose cycle yields the content \<open>mc\<close> go through two
  phases. While the cache entry is incomplete (\<open>cold\<close>) the goroutines that refer
  to a mutex all refer to the registered one, at most one of them is inside the
  locked section, and the file and the number of backend calls follow its progress.
  Once the entry is complete (\<open>warm\<close>) nobody is on the way to the backend any more
  and every result is \<open>mc\<close>.
\<close>

fun cold_pc :: "server \<Rightarrow> string \<Rightarrow> string \<Rightarrow> state \<Rightarrow> pc \<Rightarrow> bool" where
  "cold_pc s u mc st AtGet = True"
| "cold_pc s u mc st AtFastRead = True"
| "cold_pc s u mc st AtLoadOrStore = True"
| "cold_pc s u mc st (AtLock m) = (urlLocks st u = Some m)"
| "cold_pc s u mc st (AtStat m) =
     (urlLocks st u = Some m \<and> m \<in> locked st \<and> files st (cachePath s u) = None
      \<and> fetch_count u st = 0)"
| "cold_pc s u mc st (AtRead m) = False"
| "cold_pc s u mc st (AtFetch m) =
     (urlLocks st u = Some m \<and> m \<in> locked st \<and> files st (cachePath s u) = None
      \<and> fetch_count u st = 0)"
| "cold_pc s u mc st (InFetch m) =
     (urlLocks st u = Some m \<and> m \<in> locked st \<and> files st (cachePath s u) = None
      \<and> fetch_count u st = 1)"
| "cold_pc s u mc st (AtCreate m c) =
     (urlLocks st u = Some m \<and> m \<in> locked st \<and> c = mc
      \<and> files st (cachePath s u) = None \<and> fetch_count u st = 1)"
| "cold_pc s u mc st (AtWrite m c) =
     (urlLocks st u = Some m \<and> m \<in> locked st \<and> c = mc
      \<and> files st (cachePath s u) = Some [] \<and> fetch_count u st = 1)"
| "cold_pc s u mc st (AtClose m c werr off) =
     (urlLocks st u = Some m \<and> m \<in> locked st \<and> c = mc \<and> werr = None
      \<and> off = length (gz_write s mc)
      \<and> files st (cachePath s u) = Some (gz_write s mc) \<and> fetch_count u st = 1)"
| "cold_pc s u mc st (AtDelete m r) = False"
| "cold_pc s u mc st (AtUnlock m r) = False"
| "cold_pc s u mc st (Done r) =
     (r = Inr mc \<and> files st (cachePath s u) \<noteq> None \<and> fetch_count u st = 1)"

fun warm_pc :: "string \<Rightarrow> pc \<Rightarrow> bool" where
  "warm_pc mc (AtFetch m) = False"
| "warm_pc mc (InFetch m) = False"
| "warm_pc mc (AtCreate m c) = False"
| "warm_pc mc (AtWrite m c) = False"
| "warm_pc mc (AtClose m c werr off) = False"
| "warm_pc mc (AtDelete m r) = (r = Inr mc)"
| "warm_pc mc (AtUnlock m r) = (r = Inr mc)"
| "warm_pc mc (Done r) = (r = Inr mc)"
| "warm_pc mc p = True"

definition cold :: "server \<Rightarrow> string \<Rightarrow> string \<Rightarrow> thread list \<Rightarrow> state \<Rightarrow> bool" where
  "cold s u mc ts st \<longleftrightarrow>
     (\<forall>j<length ts. t_url (ts ! j) = u \<and> cold_pc s u mc st (t_pc (ts ! j)))
   \<and> (\<forall>j<length ts. \<forall>k<length ts.
         in_cs (t_pc (ts ! j)) \<longrightarrow> in_cs (t_pc (ts ! k)) \<longrightarrow> j = k)
   \<and> ((\<forall>j<length ts. \<not> in_cs (t_pc (ts ! j))) \<longrightarrow>
         files st (cachePath s u) = None \<and> fetch_count u st = 0)
   \<and> (\<forall>m. urlLocks st u = Some m \<longrightarrow> m < fresh st)
   \<and> (files st (cachePath s u) = None
        \<or> (\<exists>k. files st (cachePath s u) = Some (take k (gz_stream s mc))))
   \<and> (files st (cachePath s u) \<noteq> None \<longrightarrow> fetch_count u st = 1)
   \<and> fetch_count u st \<le> 1"

definition warm :: "server \<Rightarrow> string \<Rightarrow> string \<Rightarrow> thread list \<Rightarrow> state \<Rightarrow> bool" where
  "warm s u mc ts st \<longleftrightarrow>
     (\<forall>j<length ts. t_url (ts ! j) = u \<and> warm_pc mc (t_pc (ts ! j)))
   \<and> files st (cachePath s u) = Some (gz_stream s mc)
   \<and> fetch_count u st = 1"

text \<open>Every locked mutex is held by a goroutine inside the locked section.\<close>

definition lock_owned :: "thread list \<Rightarrow> state \<Rightarrow> bool" where
  "lock_owned ts st \<longleftrightarrow>
     (\<forall>m\<in>locked st. \<exists>j<length ts. in_cs (t_pc (ts ! j)) \<and> pc_mutex (t_pc (ts ! j)) = Some m)"

text \<open>
  The cycle for \<open>u\<close> succeeds with content \<open>mc\<close>: the backend delivers a page,
  \<open>mc\<close> is its minified form (the page itself if the minifier fails), the write to
  the cache path meets no fault, and the codec reads back a complete stream and
  rejects an incomplete one.
\<close>

definition cycle_succeeds :: "server \<Rightarrow> string \<Rightarrow> string \<Rightarrow> bool" where
  "cycle_succeeds s u mc \<longleftrightarrow>
     u \<noteq> []
   \<and> (\<exists>body. fetchPage (backend s) u = Inr body
        \<and> mc = (case minifier s body of None \<Rightarrow> body | Some m \<Rightarrow> m))
   \<and> write_fault s (cachePath s u) = NoFault
   \<and> codec_sound s mc"


definition coalescing :: "server \<Rightarrow> string \<Rightarrow> string \<Rightarrow> thread list \<times> state \<Rightarrow> bool" where
  "coalescing s u mc cfg \<longleftrightarrow>
     (cold s u mc (fst cfg) (snd cfg) \<or> warm s u mc (fst cfg) (snd cfg))
   \<and> lock_owned (fst cfg) (snd cfg)"

definition all_done :: "thread list \<Rightarrow> bool" where
  "all_done ts \<longleftrightarrow> (\<forall>j<length ts. \<exists>r. t_pc (ts ! j) = Done r)"

definition moves_total :: "thread list \<Rightarrow> nat" where
  "moves_total ts = sum_list (map (\<lambda>t. moves_left (t_pc t)) ts)"


section \<open>Properties of the cache key\<close>

lemma upperhex_inj:
  assumes "a < 16" "b < 16" "upperhex a = upperhex b"
  shows "a = b"
proof -
  have d: "distinct ''0123456789ABCDEF''" by simp
  have l: "length ''0123456789ABCDEF'' = 16" by simp
  from assms show ?thesis
    unfolding upperhex_def using nth_eq_iff_index_eq [OF d, of a b] l by simp
qed

lemma of_char_nat_less: "(of_char c :: nat) < 256"
  by (cases c) simp

lemma of_char_div16: "(of_char c :: nat) div 16 < 16"
  using of_char_nat_less [of c] by arith

lemma hex_digits_inj:
  assumes hi: "upperhex (of_char c div 16) = upperhex (of_char d div 16)"
    and lo: "upperhex (of_char c mod 16) = upperhex (of_char d mod 16)"
  shows "c = d"
proof -
  have c: "(of_char c :: nat) div 16 < 16" and d: "(of_char d :: nat) div 16 < 16"
    by (rule of_char_div16)+
  have "(of_char c :: nat) div 16 = of_char d div 16"
    using upperhex_inj [OF c d hi] .
  moreover have "(of_char c :: nat) mod 16 = of_char d mod 16"
    using upperhex_inj [OF _ _ lo] by simp
  ultimately have "(of_char c :: nat) = of_char d"
    by (metis div_mult_mod_eq)
  then show ?thesis by (rule of_char_eqI)
qed

lemma percent_escaped: "shouldEscape CHR ''%''"
  by (simp add: shouldEscape_def alphanum_def)

lemma escape_inj: "escape s = escape t \<Longrightarrow> s = t"
proof (induction s arbitrary: t)
  case Nil
  then show ?case by (cases t) (auto split: if_splits)
next
  case (Cons c cs)
  show ?case
  proof (cases t)
    case Nil
    with Cons.prems show ?thesis by (auto split: if_splits)
  next
    case (Cons d ds)
    show ?thesis
    proof (cases "shouldEscape c")
      case True
      note c = this
      show ?thesis
      proof (cases "shouldEscape d")
        case True
        with c Cons.prems Cons have "c = d" "escape cs = escape ds"
          by (auto intro: hex_digits_inj)
        with Cons.IH Cons show ?thesis by simp
      next
        case False
        with c Cons.prems Cons have "d = CHR ''%''" by simp
        with False percent_escaped show ?thesis by simp
      qed
    next
      case False
      note c = this
      show ?thesis
      proof (cases "shouldEscape d")
        case True
        with c Cons.prems Cons have "c = CHR ''%''" by simp
        with c percent_escaped show ?thesis by simp
      next
        case False
        with c Cons.prems Cons have "c = d" "escape cs = escape ds" by simp_all
        with Cons.IH Cons show ?thesis by simp
      qed
    qed
  qed
qed

lemma upperhex_mem: "n < 16 \<Longrightarrow> upperhex n \<in> set ''0123456789ABCDEF''"
  unfolding upperhex_def by (rule nth_mem) simp

lemma upperhex_not_slash:
  "n < 16 \<Longrightarrow> upperhex n \<noteq> CHR ''/'' \<and> upperhex n \<noteq> CHR 0x5C"
  using upperhex_mem [of n] by auto

lemma slash_escaped: "shouldEscape CHR ''/''" "shouldEscape (CHR 0x5C)"
  by (simp_all add: shouldEscape_def alphanum_def)

lemma escape_no_slash: "CHR ''/'' \<notin> set (escape s) \<and> CHR 0x5C \<notin> set (escape s)"
proof (induction s)
  case Nil
  then show ?case by simp
next
  case (Cons c cs)
  have "(of_char c :: nat) div 16 < 16"
    by (rule of_char_div16)
  then have hi: "upperhex (of_char c div 16) \<noteq> CHR ''/''
      \<and> upperhex (of_char c div 16) \<noteq> CHR 0x5C"
    by (rule upperhex_not_slash)
  have lo: "upperhex (of_char c mod 16) \<noteq> CHR ''/''
      \<and> upperhex (of_char c mod 16) \<noteq> CHR 0x5C"
    by (rule upperhex_not_slash) simp
  from Cons hi lo slash_escaped show ?case by auto
qed

text \<open>
  The cache key is a function of the identifier alone (equal identifiers give equal
  keys), it is injective (equal keys come only from equal identifiers), and it
  contains no path separator, neither \<open>/\<close> nor the backslash.
\<close>

lemma sanitizeURLForFilename_injective_no_separator:
  "(sanitizeURLForFilename id1 = sanitizeURLForFilename id2 \<longleftrightarrow> id1 = id2)
   \<and> CHR ''/'' \<notin> set (sanitizeURLForFilename id1)
   \<and> CHR 0x5C \<notin> set (sanitizeURLForFilename id1)"
  unfolding sanitizeURLForFilename_def PathEscape_def
  using escape_inj [of id1 id2] escape_no_slash [of id1] by blast

lemma key_dot: "sanitizeURLForFilename ''.'' = ''.''"
  by (simp add: sanitizeURLForFilename_def PathEscape_def shouldEscape_def alphanum_def)

lemma key_dotdot: "sanitizeURLForFilename ''..'' = ''..''"
  by (simp add: sanitizeURLForFilename_def PathEscape_def shouldEscape_def alphanum_def)

text \<open>Every identifier but the empty one and the two dot segments gets a usable key.\<close>

lemma sanitizeURLForFilename_usable:
  assumes "ident \<noteq> []" "ident \<noteq> ''.''" "ident \<noteq> ''..''"
  shows "usable_segment (sanitizeURLForFilename ident)"
proof -
  have inj: "sanitizeURLForFilename a = sanitizeURLForFilename b \<Longrightarrow> a = b" for a b
    by (simp add: sanitizeURLForFilename_def PathEscape_def escape_inj)
  have e: "sanitizeURLForFilename [] = []"
    by (simp add: sanitizeURLForFilename_def PathEscape_def)
  from assms inj [of ident "[]"] e have 1: "sanitizeURLForFilename ident \<noteq> []" by auto
  from assms inj [of ident "''.''"] key_dot have 2: "sanitizeURLForFilename ident \<noteq> ''.''"
    by auto
  from assms inj [of ident "''..''"] key_dotdot have 3: "sanitizeURLForFilename ident \<noteq> ''..''"
    by auto
  have 4: "CHR ''/'' \<notin> set (sanitizeURLForFilename ident)"
    using escape_no_slash [of ident] by (simp add: sanitizeURLForFilename_def PathEscape_def)
  from 1 2 3 4 show ?thesis by (simp add: usable_segment_def)
qed

text \<open>
  C5. The cache key is to be injective and usable as a single path segment. It is
  injective and free of separators (see above), but the identifiers \<open>..\<close> and \<open>.\<close>
  are kept as they are, since the escaping leaves the dot alone: their keys are the
  dot segments, which name the parent of the cache directory and the directory
  itself, not a file in it.
\<close>

theorem dot_segments_kept:
  "sanitizeURLForFilename ''..'' = ''..''
   \<and> \<not> usable_segment (sanitizeURLForFilename ''..'')
   \<and> sanitizeURLForFilename ''.'' = ''.''
   \<and> \<not> usable_segment (sanitizeURLForFilename ''.'')"
  by (simp add: key_dot key_dotdot usable_segment_def)

section \<open>Properties of the test doubles\<close>

lemma unframe_frame: "unframe (frame content) = Some content"
  by (induction content) (simp_all add: frame_def)

lemma unframe_incomplete:
  "n < length (frame content) \<Longrightarrow> unframe (take n (frame content)) = None"
proof (induction content arbitrary: n)
  case Nil
  then show ?case by (simp add: frame_def)
next
  case (Cons b content)
  have f: "frame (b # content) = CHR ''+'' # b # frame content"
    by (simp add: frame_def)
  show ?case
  proof (cases n)
    case 0
    then show ?thesis by simp
  next
    case (Suc k)
    show ?thesis
    proof (cases k)
      case 0
      with Suc f show ?thesis by simp
    next
      case (Suc j)
      with \<open>n = Suc k\<close> Cons.prems f have "j < length (frame content)" by simp
      then have "unframe (take j (frame content)) = None" by (rule Cons.IH)
      with Suc \<open>n = Suc k\<close> f show ?thesis by simp
    qed
  qed
qed

lemma test_codec_sound: "codec_sound (test_server b m fault) content"
proof -
  have "test_gunzip (take n (''GZ'' @ frame content)) = None"
    if "n < length (''GZ'' @ frame content)" for n
  proof (cases n)
    case 0
    then show ?thesis by (simp add: test_gunzip_def)
  next
    case (Suc k)
    show ?thesis
    proof (cases k)
      case 0
      with Suc show ?thesis by (simp add: test_gunzip_def)
    next
      case (Suc j)
      with \<open>n = Suc k\<close> that have "j < length (frame content)" by simp
      then have "unframe (take j (frame content)) = None" by (rule unframe_incomplete)
      with Suc \<open>n = Suc k\<close> show ?thesis by (simp add: test_gunzip_def)
    qed
  qed
  then show ?thesis
    by (simp add: codec_sound_def gz_stream_def test_server_def test_gunzip_def unframe_frame)
qed

lemma key_example: "sanitizeURLForFilename ''example.com'' = ''example.com''"
  by (simp add: sanitizeURLForFilename_def PathEscape_def shouldEscape_def alphanum_def)

lemma key_escaped: "sanitizeURLForFilename ''a/b c'' = ''a%2Fb%20c''"
  by (simp add: sanitizeURLForFilename_def PathEscape_def shouldEscape_def alphanum_def
      upperhex_def)

lemmas test_defs = test_server_def empty_state_def with_file_def set_file_def cachePath_def
  key_example held_def readFromCache_def test_gunzip_def frame_def failing_backend_def
  page_backend_def failing_minifier_def strip_spaces_def fetch_failure_def

section \<open>The store\<close>

lemma writeToCache_roundtrip:
  assumes "write_fault s path = NoFault" "gunzip s (gz_stream s content) = Some content"
  shows "fst (writeToCache s path content st) = None
     \<and> readFromCache s (snd (writeToCache s path content st)) path = Inr content"
  using assms by (simp add: writeToCache_def readFromCache_def set_file_def gz_stream_def)

text \<open>
  C4. \<open>Read(k)\<close> after a successful \<open>Write(k, b)\<close> returns \<open>b\<close>. The code reports
  success although the blob is incomplete when the flush in the deferred
  \<open>gzipWriter.Close()\<close> fails: \<open>writeToCache\<close> returns no error for content
  \<open>hello\<close>, and the following \<open>readFromCache\<close> fails. (Without a fault the round
  trip holds, see \<open>writeToCache_roundtrip\<close>.)
\<close>

theorem writeToCache_success_after_failed_close:
  "fst (writeToCache (test_server failing_backend strip_spaces (CloseFails 3))
          ''/cache/example.com'' ''hello'' empty_state) = None
   \<and> files (snd (writeToCache (test_server failing_backend strip_spaces (CloseFails 3))
          ''/cache/example.com'' ''hello'' empty_state)) ''/cache/example.com'' = Some ''GZ+h+''
   \<and> readFromCache (test_server failing_backend strip_spaces (CloseFails 3))
        (snd (writeToCache (test_server failing_backend strip_spaces (CloseFails 3))
          ''/cache/example.com'' ''hello'' empty_state)) ''/cache/example.com'' = Inl GzipFailed"
  by (simp add: writeToCache_def test_defs)

section \<open>The pipeline\<close>

lemma fetch_failure_iff: "fetch_failure b url \<longleftrightarrow> (\<exists>e. fetchPage b url = Inl e)"
  by (cases b)
    (auto simp: fetch_failure_def
      split: selenium_outcome.splits http_outcome.splits option.splits)

lemma fetchPage_error_code: "fetchPage b url = Inl e \<Longrightarrow> code_of e = Internal"
  by (cases b)
    (auto split: selenium_outcome.splits http_outcome.splits option.splits if_splits)

lemmas pipeline_defs = Get_def downloadAndCache_def LoadOrStore_def lockedSection_def
  fetchTransformStore_def Unlock_def Delete_def held_def Let_def log_event_def
  writeToCache_def set_file_def

lemma readFromCache_lock_fields [simp]:
  "readFromCache s (st\<lparr>fresh := a\<rparr>) p = readFromCache s st p"
  "readFromCache s (st\<lparr>locked := b\<rparr>) p = readFromCache s st p"
  "readFromCache s (st\<lparr>urlLocks := c\<rparr>) p = readFromCache s st p"
  by (simp_all add: readFromCache_def)

text \<open>
  C6, as amended. When the request reaches the retrieval step (the identifier is not
  empty, its mutex is free, no readable cache entry exists) and the backend reports
  an error or a status other than 200, \<open>Get\<close> fails with an error of code
  \<open>Internal\<close>, the files are unchanged, and the only call made is the retrieval:
  \<open>writeToCache\<close> is not invoked.
\<close>

theorem fetch_failure_aborts_without_write:
  assumes "url \<noteq> []" "\<not> held st url"
    "\<forall>content. readFromCache s st (cachePath s url) \<noteq> Inr content"
    "fetch_failure (backend s) url"
  shows "\<exists>e st'. Get s url invalidate st = Some (Inl e, st') \<and> code_of e = Internal
     \<and> files st' = files st \<and> events st' = events st @ [EvFetch url]"
proof -
  from assms(4) obtain e where e: "fetchPage (backend s) url = Inl e"
    by (auto simp: fetch_failure_iff)
  then have "code_of e = Internal" by (rule fetchPage_error_code)
  with assms e show ?thesis
    by (auto simp: pipeline_defs split: option.splits sum.splits)
qed

theorem fetch_failure_aborts_without_write_witness:
  "fetch_failure (backend (test_server (Http (\<lambda>url. Response 404 (Some ''gone'')))
      strip_spaces NoFault)) ''example.com''
   \<and> (\<exists>e st'. Get (test_server (Http (\<lambda>url. Response 404 (Some ''gone''))) strip_spaces NoFault)
          ''example.com'' False empty_state = Some (Inl e, st')
        \<and> code_of e = Internal \<and> files st' = files empty_state
        \<and> events st' = events empty_state @ [EvFetch ''example.com''])"
  using fetch_failure_aborts_without_write
    [of "''example.com''" empty_state
      "test_server (Http (\<lambda>url. Response 404 (Some ''gone''))) strip_spaces NoFault" False]
  by (simp add: test_defs)

text \<open>
  C6 as stated fails for empty content after a success signal: the empty page is
  minified, stored and returned without error.
\<close>

theorem empty_page_is_cached_and_served:
  "fetchPage (backend (test_server (page_backend []) strip_spaces NoFault)) ''example.com''
     = Inr []
   \<and> (\<exists>st'. Get (test_server (page_backend []) strip_spaces NoFault)
          ''example.com'' False empty_state = Some (Inr [], st')
        \<and> files st' ''/cache/example.com'' = Some ''GZ.'')"
  by (simp add: pipeline_defs test_defs)

text \<open>
  C7. When the request reaches the transformation with fetched bytes \<open>raw\<close> and the
  minifier returns an error, \<open>Get\<close> returns \<open>raw\<close> without error and calls
  \<open>writeToCache\<close> with \<open>raw\<close>; unless the store faults, the cache entry is then the
  compressed \<open>raw\<close>.
\<close>

theorem transform_failure_serves_raw_bytes:
  assumes "url \<noteq> []" "\<not> held st url"
    "\<forall>content. readFromCache s st (cachePath s url) \<noteq> Inr content"
    "fetchPage (backend s) url = Inr raw" "minifier s raw = None"
  shows "\<exists>st'. Get s url invalidate st = Some (Inr raw, st')
     \<and> EvWrite (cachePath s url) raw \<in> set (events st')
     \<and> (write_fault s (cachePath s url) = NoFault \<longrightarrow>
          files st' (cachePath s url) = Some (gz_stream s raw))"
  using assms
  by (auto simp: pipeline_defs gz_stream_def split: option.splits sum.splits write_fault.splits)

theorem transform_failure_serves_raw_bytes_witness:
  "minifier (test_server (page_backend ''<p> hi </p>'') failing_minifier NoFault)
      ''<p> hi </p>'' = None
   \<and> (\<exists>st'. Get (test_server (page_backend ''<p> hi </p>'') failing_minifier NoFault)
          ''example.com'' False empty_state = Some (Inr ''<p> hi </p>'', st')
        \<and> EvWrite ''/cache/example.com'' ''<p> hi </p>'' \<in> set (events st')
        \<and> files st' ''/cache/example.com'' = Some ''GZ+<+p+>+ +h+i+ +<+/+p+>.'')"
  using transform_failure_serves_raw_bytes
    [of "''example.com''" empty_state
      "test_server (page_backend ''<p> hi </p>'') failing_minifier NoFault" "''<p> hi </p>''"
      False]
  by (simp add: test_defs gz_stream_def)

text \<open>
  C8. On a miss where retrieval and transformation complete, \<open>Get\<close> returns the
  (minified, or on minifier failure raw) content without error also when
  \<open>writeToCache\<close> returns an error (which it does or does not in every state
  alike, here \<open>st0\<close>).
\<close>

theorem write_failure_still_serves_content:
  assumes "url \<noteq> []" "\<not> held st url"
    "\<forall>content. readFromCache s st (cachePath s url) \<noteq> Inr content"
    "fetchPage (backend s) url = Inr raw"
    "content = (case minifier s raw of None \<Rightarrow> raw | Some m \<Rightarrow> m)"
    "fst (writeToCache s (cachePath s url) content st0) = Some werr"
  shows "\<exists>st'. Get s url invalidate st = Some (Inr content, st')"
  using assms
  by (auto simp: pipeline_defs split: option.splits sum.splits write_fault.splits)

theorem write_failure_still_serves_content_witness:
  "fst (writeToCache (test_server (page_backend ''<p> hi </p>'') strip_spaces CreateFails)
          ''/cache/example.com'' ''<p>hi</p>'' empty_state) = Some CreateFailed
   \<and> (\<exists>st'. Get (test_server (page_backend ''<p> hi </p>'') strip_spaces CreateFails)
          ''example.com'' False empty_state = Some (Inr ''<p>hi</p>'', st'))"
  using write_failure_still_serves_content
    [of "''example.com''" empty_state
      "test_server (page_backend ''<p> hi </p>'') strip_spaces CreateFails" "''<p> hi </p>''"
      "''<p>hi</p>''" empty_state CreateFailed False]
  by (simp add: test_defs writeToCache_def)

text \<open>
  What \<open>Get(id, true)\<close> does for an identifier with an existing cache entry when
  the backend fails and the identifier's mutex is free: if the entry is readable
  the request succeeds with the cached content (the backend is not asked); if it is
  unreadable the request fails with the retrieval error, of code \<open>Internal\<close>. In
  both cases the files are left as they were.
\<close>

lemma invalidate_with_failing_fetch:
  assumes "url \<noteq> []" "files st (cachePath s url) = Some blob"
    "fetch_failure (backend s) url" "\<not> held st url"
  shows "\<exists>e st'. fetchPage (backend s) url = Inl e \<and> code_of e = Internal
     \<and> Get s url True st =
          Some (case gunzip s blob of Some content \<Rightarrow> Inr content | None \<Rightarrow> Inl e, st')
     \<and> files st' = files st"
proof -
  from assms(3) obtain e where e: "fetchPage (backend s) url = Inl e"
    by (auto simp: fetch_failure_iff)
  then have c: "code_of e = Internal" by (rule fetchPage_error_code)
  show ?thesis
  proof (cases "gunzip s blob")
    case None
    with assms e c show ?thesis
      by (auto simp: pipeline_defs readFromCache_def split: option.splits)
  next
    case (Some content)
    with assms e c show ?thesis
      by (auto simp: pipeline_defs readFromCache_def split: option.splits)
  qed
qed

text \<open>
  The invalidate flag changes nothing that a caller can observe: with the mutex
  free, \<open>Get(id, true)\<close> and \<open>Get(id, false)\<close> give the same result, the same files
  and the same calls to the collaborators. The flag only skips the check outside
  the lock; \<open>downloadAndCache\<close> does not receive it and repeats the check.
\<close>

lemma invalidate_ignored:
  assumes "\<not> held st url"
  shows "map_option fst (Get s url True st) = map_option fst (Get s url False st)
     \<and> map_option (\<lambda>c. files (snd c)) (Get s url True st)
         = map_option (\<lambda>c. files (snd c)) (Get s url False st)
     \<and> map_option (\<lambda>c. events (snd c)) (Get s url True st)
         = map_option (\<lambda>c. events (snd c)) (Get s url False st)"
proof (cases "url = []")
  case True
  then show ?thesis by (simp add: Get_def)
next
  case False
  show ?thesis
  proof (cases "readFromCache s st (cachePath s url)")
    case (Inl e)
    with False show ?thesis by (simp add: Get_def Let_def)
  next
    case (Inr content)
    then have "cachePath s url \<in> dom (files st)"
      by (auto simp: readFromCache_def split: option.splits)
    with False Inr assms show ?thesis
      by (auto simp: pipeline_defs split: option.splits)
  qed
qed

text \<open>
  C9. \<open>Get(id, true)\<close> with an existing cache entry whose fetch now fails is to
  fail with a fetch error, leaving the entry untouched. With a readable entry
  \<open>hi\<close> on disk and a backend that fails, the code does not fail: it never asks
  the backend and returns the cached \<open>hi\<close>.
\<close>

theorem invalidate_failing_fetch_served_from_cache:
  "fetchPage (backend (test_server failing_backend strip_spaces NoFault)) ''example.com''
     = Inl NavigateFailed
   \<and> files (with_file ''/cache/example.com'' ''GZ+h+i.'') ''/cache/example.com''
       = Some ''GZ+h+i.''
   \<and> (\<exists>st'. Get (test_server failing_backend strip_spaces NoFault) ''example.com'' True
          (with_file ''/cache/example.com'' ''GZ+h+i.'') = Some (Inr ''hi'', st'))"
  by (simp add: pipeline_defs test_defs)

text \<open>
  C10. For a non-empty identifier with a readable cache entry, \<open>Get(id, true)\<close>
  is the call of \<open>downloadAndCache\<close>, which takes the identifier's mutex first:
  while another goroutine holds that mutex the call does not return. With the
  mutex free it returns the stored, decompressed content from the double-check
  inside the lock: the files are unchanged, no call to the backend, the minifier or
  \<open>writeToCache\<close> is made, and the state shows the passage through the lock (a
  mutex was allocated by \<open>LoadOrStore\<close>, the registry entry is deleted, the mutex
  is unlocked again).
\<close>

theorem invalidate_served_from_cache:
  assumes "url \<noteq> []" "readFromCache s st (cachePath s url) = Inr content"
  shows "Get s url True st = downloadAndCache s url (cachePath s url) st
      \<and> (\<forall>m. urlLocks st url = Some m \<and> m \<in> locked st \<and> m \<noteq> fresh st
            \<longrightarrow> Get s url True st = None)
      \<and> (\<not> held st url \<longrightarrow>
           (\<exists>st'. Get s url True st = Some (Inr content, st')
              \<and> files st' = files st \<and> events st' = events st
              \<and> fresh st' = Suc (fresh st) \<and> urlLocks st' url = None
              \<and> fst (LoadOrStore url st) \<notin> locked st'))"
proof -
  from assms(2) have "cachePath s url \<in> dom (files st)"
    by (auto simp: readFromCache_def split: option.splits)
  with assms show ?thesis
    by (auto simp: pipeline_defs split: option.splits)
qed

theorem invalidate_served_from_cache_witness:
  "readFromCache (test_server (page_backend ''new'') strip_spaces NoFault)
      (with_file ''/cache/example.com'' ''GZ+h+i.'')
      (cachePath (test_server (page_backend ''new'') strip_spaces NoFault) ''example.com'')
     = Inr ''hi''
   \<and> Get (test_server (page_backend ''new'') strip_spaces NoFault) ''example.com'' True
        (with_file ''/cache/example.com'' ''GZ+h+i.'')
      = downloadAndCache (test_server (page_backend ''new'') strip_spaces NoFault)
          ''example.com'' ''/cache/example.com'' (with_file ''/cache/example.com'' ''GZ+h+i.'')
   \<and> Get (test_server (page_backend ''new'') strip_spaces NoFault) ''example.com'' True
        ((with_file ''/cache/example.com'' ''GZ+h+i.'')
           \<lparr>urlLocks := [''example.com'' \<mapsto> 0], locked := {0}, fresh := 1\<rparr>) = None
   \<and> (\<exists>st'. Get (test_server (page_backend ''new'') strip_spaces NoFault) ''example.com'' True
          (with_file ''/cache/example.com'' ''GZ+h+i.'') = Some (Inr ''hi'', st')
        \<and> files st' = files (with_file ''/cache/example.com'' ''GZ+h+i.'')
        \<and> events st' = events (with_file ''/cache/example.com'' ''GZ+h+i.'')
        \<and> fresh st' = Suc 0 \<and> urlLocks st' ''example.com'' = None \<and> 0 \<notin> locked st')"
proof -
  let ?s = "test_server (page_backend ''new'') strip_spaces NoFault"
  let ?st = "with_file ''/cache/example.com'' ''GZ+h+i.''"
  let ?busy = "?st\<lparr>urlLocks := [''example.com'' \<mapsto> 0], locked := {0}, fresh := 1\<rparr>"
  have p: "cachePath ?s ''example.com'' = ''/cache/example.com''"
    by (simp add: test_defs)
  have h1: "''example.com'' \<noteq> []" by simp
  have h2: "readFromCache ?s ?st (cachePath ?s ''example.com'') = Inr ''hi''"
    by (simp add: test_defs)
  have h2': "readFromCache ?s ?busy (cachePath ?s ''example.com'') = Inr ''hi''"
    by (simp add: test_defs)
  have h3: "\<not> held ?st ''example.com''" by (simp add: test_defs)
  have b: "urlLocks ?busy ''example.com'' = Some 0 \<and> 0 \<in> locked ?busy \<and> 0 \<noteq> fresh ?busy"
    by simp
  have l: "fst (LoadOrStore ''example.com'' ?st) = 0" "fresh ?st = 0"
    by (simp_all add: LoadOrStore_def test_defs)
  from invalidate_served_from_cache [OF h1 h2'] b
  have busy: "Get ?s ''example.com'' True ?busy = None" by blast
  from invalidate_served_from_cache [OF h1 h2] h2 h3 busy show ?thesis
    unfolding p l by blast
qed

section \<open>Reading while a write is in progress\<close>

lemma write_at_end [simp]: "write_at (length blob) bytes blob = blob @ bytes"
  by (simp add: write_at_def)

lemma write_at_start [simp]: "write_at 0 bytes [] = bytes"
  by (simp add: write_at_def)

text \<open>Run alone, the three steps of the write amount to \<open>writeToCache\<close>.\<close>

lemma steps_writeToCache:
  "(case createStep s path st of
      (Some e, st1) \<Rightarrow> (Some e, st1)
    | (None, st1) \<Rightarrow>
        (case writeStep s path content st1 of
           (werr, off, st2) \<Rightarrow> (werr, closeStep s path content werr off st2)))
   = writeToCache s path content st"
  by (simp add: createStep_def writeStep_def closeStep_def writeToCache_def pwrite_def
      set_file_def min_def split: write_fault.splits)

lemma gunzip_prefix:
  assumes "codec_sound s content"
  shows "gunzip s (take k (gz_stream s content)) = None
       \<or> gunzip s (take k (gz_stream s content)) = Some content"
proof (cases "k < length (gz_stream s content)")
  case True
  with assms show ?thesis by (simp add: codec_sound_def)
next
  case False
  with assms show ?thesis by (simp add: codec_sound_def)
qed

lemma read_prefix:
  assumes "codec_sound s content" "files st path = Some (take k (gz_stream s content))"
  shows "readFromCache s st path = Inr content \<or> readFromCache s st path = Inl GzipFailed"
  using gunzip_prefix [OF assms(1), of k] assms(2)
  by (auto simp: readFromCache_def)

lemma stream_prefixes:
  "\<exists>k. [] = take k (gz_stream s content)"
  "\<exists>k. take n (gz_write s content) = take k (gz_stream s content)"
  "\<exists>k. gz_write s content = take k (gz_stream s content)"
  "\<exists>k. gz_write s content @ take n (gz_close s content) = take k (gz_stream s content)"
  "\<exists>k. gz_write s content @ gz_close s content = take k (gz_stream s content)"
proof -
  show "\<exists>k. [] = take k (gz_stream s content)"
    by (rule exI [of _ 0]) simp
  show "\<exists>k. take n (gz_write s content) = take k (gz_stream s content)"
    by (rule exI [of _ "min n (length (gz_write s content))"]) (simp add: gz_stream_def min_def)
  show "\<exists>k. gz_write s content = take k (gz_stream s content)"
    by (rule exI [of _ "length (gz_write s content)"]) (simp add: gz_stream_def)
  show "\<exists>k. gz_write s content @ take n (gz_close s content) = take k (gz_stream s content)"
    by (rule exI [of _ "length (gz_write s content) + n"]) (simp add: gz_stream_def)
  show "\<exists>k. gz_write s content @ gz_close s content = take k (gz_stream s content)"
    by (rule exI [of _ "length (gz_stream s content)"]) (simp add: gz_stream_def)
qed

text \<open>
  A read whose calls all see the same file is \<open>readFromCache\<close> of that file.
\<close>

lemma pull_snapshot:
  assumes "\<forall>c \<in> set calls. snd c = blob" "got = take a blob" "pull got calls = Some bytes"
  shows "bytes = blob"
  using assms
proof (induction calls arbitrary: got a)
  case Nil
  then show ?case by simp
next
  case (Cons c calls)
  obtain n where c: "c = (n, blob)" using Cons.prems(1) by (cases c) auto
  let ?g = "length got"
  have got: "got = take ?g blob" using Cons.prems(2) by (simp add: min_def)
  show ?case
  proof (cases "take (Suc n) (drop ?g blob) = []")
    case True
    then have "length blob \<le> ?g" by simp
    with Cons.prems(3) c True got show ?thesis by (metis option.inject pull.simps(2) take_all)
  next
    case False
    have "got @ take (Suc n) (drop ?g blob) = take (?g + Suc n) blob"
      using got by (metis take_add)
    with Cons.IH [of "got @ take (Suc n) (drop ?g blob)" "?g + Suc n"] Cons.prems c False
    show ?thesis by simp
  qed
qed

lemma readCalls_snapshot:
  assumes "\<forall>c \<in> set calls. snd c = (case files st path of None \<Rightarrow> [] | Some blob \<Rightarrow> blob)"
    "readCalls s (files st path) calls = Some r"
  shows "r = readFromCache s st path"
proof (cases "files st path")
  case None
  with assms(2) show ?thesis by (simp add: readCalls_def readFromCache_def)
next
  case (Some blob)
  with assms(2) obtain bytes where b: "pull [] calls = Some bytes" and r: "r = decode s bytes"
    by (auto simp: readCalls_def)
  from assms(1) Some have "\<forall>c \<in> set calls. snd c = blob" by simp
  from pull_snapshot [OF this _ b, of 0] have "bytes = blob" by simp
  with r Some show ?thesis by (simp add: decode_def readFromCache_def)
qed

text \<open>
  Calls that all see beginnings of one stream \<open>S\<close> extend what was gathered by a
  stretch of \<open>S\<close> from the same offset.
\<close>

lemma pull_new:
  assumes "\<forall>c \<in> set calls. \<exists>m. snd c = take m S"
    "got = P @ take j (drop (length P) S)" "pull got calls = Some bytes"
  shows "\<exists>j'. bytes = P @ take j' (drop (length P) S)"
  using assms
proof (induction calls arbitrary: got j)
  case Nil
  then show ?case by simp
next
  case (Cons c calls)
  obtain n m where c: "c = (n, take m S)" using Cons.prems(1) by (cases c) auto
  define k where "k = length P"
  define T where "T = drop k S"
  define i where "i = length (take j T)"
  define chunk where "chunk = take (Suc n) (drop (length got) (take m S))"
  have got: "got = P @ take i T" and len: "length got = k + i" and i: "i \<le> length T"
    using Cons.prems(2) by (simp_all add: k_def T_def i_def min_def)
  from Cons.prems(1) have rest: "\<forall>c \<in> set calls. \<exists>m. snd c = take m S" by simp
  show ?case
  proof (cases "chunk = []")
    case True
    with Cons.prems(3) c have "bytes = got" by (simp add: chunk_def)
    with got show ?thesis unfolding T_def k_def by blast
  next
    case False
    with Cons.prems(3) c have p: "pull (got @ chunk) calls = Some bytes"
      by (simp add: chunk_def)
    have "drop (length got) (take m S) = take (m - (k + i)) (drop i T)"
      unfolding len T_def by (simp add: drop_take add.commute)
    then have "chunk = take (min (Suc n) (m - (k + i))) (drop i T)"
      by (simp add: chunk_def)
    then have "got @ chunk = P @ take i T @ take (min (Suc n) (m - (k + i))) (drop i T)"
      using got by simp
    also have "\<dots> = P @ take (i + min (Suc n) (m - (k + i))) T"
      by (simp add: take_add)
    finally have "got @ chunk = P @ take (i + min (Suc n) (m - (k + i))) (drop (length P) S)"
      by (simp add: T_def k_def)
    from Cons.IH [OF rest this p] show ?thesis .
  qed
qed

text \<open>
  The store during a write: first the state before the write, and from
  \<open>os.Create\<close> on the file is a beginning of the new stream.
\<close>

lemma write_trace_start: "write_trace s path content st ! 0 = st"
  by (simp add: write_trace_def split: prod.splits option.splits)

lemma write_trace_later:
  assumes "0 < at" "at < length (write_trace s path content st)"
  shows "\<exists>m. files (write_trace s path content st ! at) path
           = Some (take m (gz_stream s content))"
proof -
  have "write_trace s path content st ! at \<in> set (tl (write_trace s path content st))"
    using assms by (cases "write_trace s path content st"; cases at) auto
  then show ?thesis
    by (auto simp: write_trace_def createStep_def writeStep_def closeStep_def pwrite_def
        set_file_def stream_prefixes split: write_fault.splits)
qed

lemma file_at_later:
  assumes "0 < at" "at < length (write_trace s path content st)"
  shows "\<exists>m. file_at (write_trace s path content st) path at = take m (gz_stream s content)"
  using write_trace_later [OF assms] by (auto simp: file_at_def)

text \<open>
  A read that starts on the old file gathers a beginning of the old blob and, once
  the write has truncated the file, continues with the new stream from the offset
  it has reached.
\<close>

lemma pull_straddle:
  assumes "sorted (map snd calls)"
    "\<forall>at \<in> set (map snd calls). at < length (write_trace s path content st)"
    "files st path = Some old" "got = take a old"
    "pull got (map (\<lambda>(n, at). (n, file_at (write_trace s path content st) path at)) calls)
       = Some bytes"
  shows "\<exists>k j. bytes = take k old @ take j (drop k (gz_stream s content))"
  using assms
proof (induction calls arbitrary: got a)
  case Nil
  then show ?case by simp
next
  case (Cons c calls)
  let ?tr = "write_trace s path content st"
  let ?S = "gz_stream s content"
  let ?view = "\<lambda>(n, at). (n, file_at ?tr path at)"
  obtain n at where c: "c = (n, at)" by (cases c)
  define k where "k = length got"
  have got: "got = take k old" using Cons.prems(4) by (simp add: k_def min_def)
  show ?case
  proof (cases "at = 0")
    case True
    then have view: "file_at ?tr path at = old"
      using Cons.prems(3) by (simp add: file_at_def write_trace_start)
    show ?thesis
    proof (cases "take (Suc n) (drop (length got) old) = []")
      case True
      with Cons.prems(5) c view have "bytes = got" by simp
      with got have "bytes = take k old @ take 0 (drop k ?S)" by simp
      then show ?thesis by blast
    next
      case False
      with Cons.prems(5) c view
      have p: "pull (got @ take (Suc n) (drop (length got) old)) (map ?view calls) = Some bytes"
        by simp
      have g: "got @ take (Suc n) (drop (length got) old) = take (k + Suc n) old"
        using got k_def by (metis take_add)
      from Cons.prems(1) have s: "sorted (map snd calls)" by simp
      from Cons.prems(2) have b: "\<forall>at \<in> set (map snd calls). at < length ?tr" by simp
      from Cons.IH [OF s b Cons.prems(3) g p] show ?thesis .
    qed
  next
    case False
    have later: "\<forall>c' \<in> set (map ?view (c # calls)). \<exists>m. snd c' = take m ?S"
    proof
      fix c' assume "c' \<in> set (map ?view (c # calls))"
      then obtain n' at' where m: "(n', at') \<in> set (c # calls)"
        and c': "c' = (n', file_at ?tr path at')" using c by auto
      from m Cons.prems(1) c have "at \<le> at'" by auto
      with False have pos: "0 < at'" by simp
      from m Cons.prems(2) have "at' < length ?tr" by force
      from file_at_later [OF pos this] c' show "\<exists>m. snd c' = take m ?S" by simp
    qed
    have g: "got = take k old @ take 0 (drop (length (take k old)) ?S)"
      using got by simp
    from pull_new [OF later g Cons.prems(5)] obtain j'
      where "bytes = take k old @ take j' (drop (length (take k old)) ?S)" ..
    moreover have "length (take k old) = k" using got k_def by (metis)
    ultimately show ?thesis by auto
  qed
qed

text \<open>
  C2, as amended. A read of the path that runs while \<open>writeToCache(path, content)\<close>
  is in progress (whatever fault the write meets), with a codec that rejects
  incomplete streams, and that reaches the end of the file:
  if all its calls come before \<open>os.Create\<close>, it returns what \<open>readFromCache\<close>
  returned before the write;
  if it opens the file after \<open>os.Create\<close>, it returns the new content or fails
  with a gzip error, never a part of the content;
  if it opens the file before \<open>os.Create\<close>, it fails to open (there was no file)
  or it hands the gzip reader a beginning of the old blob followed by a stretch of
  the new stream from the same offset, and returns what the gzip reader makes of
  these bytes.
\<close>

theorem read_concurrent_with_write:
  assumes codec: "codec_sound s content"
    and ok: "moments_ok (write_trace s path content st) opened_at calls"
    and r: "concurrentRead s path (write_trace s path content st) opened_at calls = Some r"
  shows "((\<forall>at \<in> set (opened_at # map snd calls). at = 0) \<longrightarrow> r = readFromCache s st path)
       \<and> (0 < opened_at \<longrightarrow> r = Inr content \<or> r = Inl GzipFailed)
       \<and> (opened_at = 0 \<longrightarrow> r = Inl OpenFailed \<or>
            (\<exists>old k j. files st path = Some old
               \<and> r = decode s (take k old @ take j (drop k (gz_stream s content)))))"
proof (intro conjI impI)
  let ?tr = "write_trace s path content st"
  let ?S = "gz_stream s content"
  let ?view = "\<lambda>(n, at). (n, file_at ?tr path at)"
  from ok have sorted: "sorted (opened_at # map snd calls)"
    and bound: "\<forall>at \<in> set (opened_at # map snd calls). at < length ?tr"
    by (simp_all add: moments_ok_def)
  {
    assume all0: "\<forall>at \<in> set (opened_at # map snd calls). at = 0"
    have "\<forall>c \<in> set (map ?view calls).
        snd c = (case files st path of None \<Rightarrow> [] | Some blob \<Rightarrow> blob)"
      using all0 by (auto simp: file_at_def write_trace_start)
    moreover have "readCalls s (files st path) (map ?view calls) = Some r"
      using r all0 by (simp add: concurrentRead_def write_trace_start)
    ultimately show "r = readFromCache s st path" by (rule readCalls_snapshot)
  next
    assume pos: "0 < opened_at"
    from bound have "opened_at < length ?tr" by simp
    from write_trace_later [OF pos this] obtain m
      where "files (?tr ! opened_at) path = Some (take m ?S)" ..
    with r obtain bytes where p: "pull [] (map ?view calls) = Some bytes"
      and rb: "r = decode s bytes"
      by (auto simp: concurrentRead_def readCalls_def)
    have later: "\<forall>c' \<in> set (map ?view calls). \<exists>m. snd c' = take m ?S"
    proof
      fix c' assume "c' \<in> set (map ?view calls)"
      then obtain n' at' where m: "(n', at') \<in> set calls"
        and c': "c' = (n', file_at ?tr path at')" by auto
      from m sorted have "opened_at \<le> at'" by force
      with pos have pos': "0 < at'" by simp
      from m bound have "at' < length ?tr" by force
      from file_at_later [OF pos' this] c' show "\<exists>m. snd c' = take m ?S" by simp
    qed
    have "[] = [] @ take 0 (drop (length ([] :: string)) ?S)" by simp
    from pull_new [OF later this p] obtain j' where "bytes = take j' ?S" by auto
    with gunzip_prefix [OF codec, of j'] rb
    show "r = Inr content \<or> r = Inl GzipFailed" by (auto simp: decode_def)
  next
    assume zero: "opened_at = 0"
    show "r = Inl OpenFailed \<or>
        (\<exists>old k j. files st path = Some old \<and> r = decode s (take k old @ take j (drop k ?S)))"
    proof (cases "files st path")
      case None
      with r zero show ?thesis
        by (simp add: concurrentRead_def readCalls_def write_trace_start)
    next
      case (Some old)
      with r zero obtain bytes where p: "pull [] (map ?view calls) = Some bytes"
        and rb: "r = decode s bytes"
        by (auto simp: concurrentRead_def readCalls_def write_trace_start)
      from sorted have s: "sorted (map snd calls)" by simp
      from bound have b: "\<forall>at \<in> set (map snd calls). at < length ?tr" by simp
      have "[] = take 0 old" by simp
      from pull_straddle [OF s b Some this p] rb Some show ?thesis by blast
    qed
  }
qed

theorem read_concurrent_with_write_witness:
  "codec_sound (test_server failing_backend strip_spaces NoFault) ''new''
   \<and> moments_ok (write_trace (test_server failing_backend strip_spaces NoFault)
        ''/cache/example.com'' ''new'' (with_file ''/cache/example.com'' ''GZ+o+l+d.''))
        0 [(1, 0), (4095, 3), (4095, 3)]
   \<and> concurrentRead (test_server failing_backend strip_spaces NoFault) ''/cache/example.com''
        (write_trace (test_server failing_backend strip_spaces NoFault)
          ''/cache/example.com'' ''new'' (with_file ''/cache/example.com'' ''GZ+o+l+d.''))
        0 [(1, 0), (4095, 3), (4095, 3)] = Some (Inr ''new'')
   \<and> (\<exists>old k j. files (with_file ''/cache/example.com'' ''GZ+o+l+d.'') ''/cache/example.com''
          = Some old
        \<and> Inr ''new'' = decode (test_server failing_backend strip_spaces NoFault)
            (take k old @ take j (drop k
              (gz_stream (test_server failing_backend strip_spaces NoFault) ''new''))))"
proof -
  let ?s = "test_server failing_backend strip_spaces NoFault"
  let ?st = "with_file ''/cache/example.com'' ''GZ+o+l+d.''"
  let ?tr = "write_trace ?s ''/cache/example.com'' ''new'' ?st"
  have h1: "codec_sound ?s ''new''" by (rule test_codec_sound)
  have h2: "moments_ok ?tr 0 [(1, 0), (4095, 3), (4095, 3)]"
    by (simp add: moments_ok_def write_trace_def createStep_def writeStep_def
        test_server_def)
  have h3: "concurrentRead ?s ''/cache/example.com'' ?tr 0 [(1, 0), (4095, 3), (4095, 3)]
      = Some (Inr ''new'')"
    by code_simp
  from read_concurrent_with_write [OF h1 h2 h3]
  have "\<exists>old k j. files ?st ''/cache/example.com'' = Some old
        \<and> Inr ''new'' = decode ?s (take k old @ take j (drop k (gz_stream ?s ''new'')))"
    by blast
  with h1 h2 h3 show ?thesis by blast
qed

text \<open>
  C2 as stated fails: between \<open>os.Create\<close> and the first write the file is empty.
  A read that opens the file then and finds its end at once returns neither the
  previous content \<open>old\<close> nor the new content \<open>new\<close>, but an error.
\<close>

theorem read_after_create_fails:
  "readFromCache (test_server failing_backend strip_spaces NoFault)
      (with_file ''/cache/example.com'' ''GZ+o+l+d.'') ''/cache/example.com'' = Inr ''old''
   \<and> moments_ok (write_trace (test_server failing_backend strip_spaces NoFault)
        ''/cache/example.com'' ''new'' (with_file ''/cache/example.com'' ''GZ+o+l+d.''))
        1 [(4095, 1)]
   \<and> concurrentRead (test_server failing_backend strip_spaces NoFault) ''/cache/example.com''
        (write_trace (test_server failing_backend strip_spaces NoFault)
          ''/cache/example.com'' ''new'' (with_file ''/cache/example.com'' ''GZ+o+l+d.''))
        1 [(4095, 1)] = Some (Inl GzipFailed)"
  by code_simp

text \<open>
  A read that straddles \<open>os.Create\<close> can gather bytes of both streams. The stand-in
  codec has no checksum and decodes such a mix: four bytes of the old blob and the
  new stream from the fifth byte on give \<open>oewer\<close>, which was never written. With
  gzip the CRC-32 of the trailer stands against this; the code adds no protection
  of its own.
\<close>

lemma straddling_read_mixes_streams:
  "concurrentRead (test_server failing_backend strip_spaces NoFault) ''/cache/example.com''
        (write_trace (test_server failing_backend strip_spaces NoFault)
          ''/cache/example.com'' ''newer'' (with_file ''/cache/example.com'' ''GZ+o+l+d.''))
        0 [(3, 0), (4095, 3), (4095, 3)] = Some (Inr ''oewer'')"
  by code_simp

section \<open>The lock registry under concurrency\<close>

text \<open>
  C3. The registry entry of a key is to be removed only after the holder has
  released the mutex, and only when no other caller refers to it. Three concurrent
  \<open>Get("example.com", false)\<close> on an empty cache with a backend that fails:
  goroutine 0 takes the lock and fetches, goroutine 1 loads the same mutex and
  waits. When goroutine 0 leaves, its deferred \<open>Delete\<close> runs before its
  \<open>Unlock\<close>: the entry is gone while the mutex is still locked and goroutine 1
  still waits on it. Goroutine 2 then stores a new mutex for the same URL, and
  goroutines 1 and 2 are inside the backend call for the same URL at once.
\<close>

theorem registry_entry_deleted_while_in_use:
  "map t_pc (fst (run (test_server failing_backend strip_spaces NoFault)
      [0,0,0,0,0, 1,1,1, 0,0] (requests 3 ''example.com'')))
     = [AtUnlock 0 (Inl NavigateFailed), AtLock 0, AtGet]
   \<and> urlLocks (snd (run (test_server failing_backend strip_spaces NoFault)
        [0,0,0,0,0, 1,1,1, 0,0] (requests 3 ''example.com''))) ''example.com'' = None
   \<and> 0 \<in> locked (snd (run (test_server failing_backend strip_spaces NoFault)
        [0,0,0,0,0, 1,1,1, 0,0] (requests 3 ''example.com'')))
   \<and> map t_pc (fst (run (test_server failing_backend strip_spaces NoFault)
        ([0,0,0,0,0, 1,1,1, 0,0] @ [0, 1,1,1, 2,2,2,2,2]) (requests 3 ''example.com'')))
       = [Done (Inl NavigateFailed), InFetch 0, InFetch 2]"
  by code_simp

section \<open>Moves of a goroutine\<close>

lemma step_AtGet: "t_pc t = AtGet \<Longrightarrow> thread_step s t st =
    (if t_url t = [] then Some (goto (Done (Inl EmptyURL)) t, st)
     else if \<not> t_invalidate t \<and> cachePath s (t_url t) \<in> dom (files st)
     then Some (goto AtFastRead t, st)
     else Some (goto AtLoadOrStore t, st))"
  by (simp add: thread_step_def Let_def)

lemma step_AtFastRead: "t_pc t = AtFastRead \<Longrightarrow> thread_step s t st =
    (case readFromCache s st (cachePath s (t_url t)) of
       Inr content \<Rightarrow> Some (goto (Done (Inr content)) t, st)
     | Inl err \<Rightarrow> Some (goto AtLoadOrStore t, st))"
  by (simp add: thread_step_def Let_def)

lemma step_AtLoadOrStore: "t_pc t = AtLoadOrStore \<Longrightarrow> thread_step s t st =
    Some (goto (AtLock (fst (LoadOrStore (t_url t) st))) t, snd (LoadOrStore (t_url t) st))"
  by (simp add: thread_step_def split: prod.splits)

lemma step_AtLock: "t_pc t = AtLock m \<Longrightarrow> thread_step s t st =
    (if m \<in> locked st then None
     else Some (goto (AtStat m) t, st\<lparr>locked := insert m (locked st)\<rparr>))"
  by (simp add: thread_step_def Let_def)

lemma step_AtStat: "t_pc t = AtStat m \<Longrightarrow> thread_step s t st =
    (if cachePath s (t_url t) \<in> dom (files st) then Some (goto (AtRead m) t, st)
     else Some (goto (AtFetch m) t, st))"
  by (simp add: thread_step_def Let_def)

lemma step_AtRead: "t_pc t = AtRead m \<Longrightarrow> thread_step s t st =
    (case readFromCache s st (cachePath s (t_url t)) of
       Inr content \<Rightarrow> Some (goto (AtDelete m (Inr content)) t, st)
     | Inl err \<Rightarrow> Some (goto (AtFetch m) t, st))"
  by (simp add: thread_step_def Let_def)

lemma step_AtFetch: "t_pc t = AtFetch m \<Longrightarrow> thread_step s t st =
    Some (goto (InFetch m) t, log_event (EvFetch (t_url t)) st)"
  by (simp add: thread_step_def Let_def)

lemma step_InFetch: "t_pc t = InFetch m \<Longrightarrow> thread_step s t st =
    (case fetchPage (backend s) (t_url t) of
       Inl e \<Rightarrow> Some (goto (AtDelete m (Inl e)) t, st)
     | Inr bodyBytes \<Rightarrow>
         Some (goto (AtCreate m
                 (case minifier s bodyBytes of None \<Rightarrow> bodyBytes | Some x \<Rightarrow> x)) t,
               log_event (EvTransform bodyBytes) st))"
  by (simp add: thread_step_def Let_def)

lemma step_AtCreate: "t_pc t = AtCreate m c \<Longrightarrow> thread_step s t st =
    (case createStep s (cachePath s (t_url t))
            (log_event (EvWrite (cachePath s (t_url t)) c) st) of
       (Some e, st1) \<Rightarrow> Some (goto (AtDelete m (Inr c)) t, st1)
     | (None, st1) \<Rightarrow> Some (goto (AtWrite m c) t, st1))"
  by (simp add: thread_step_def Let_def)

lemma step_AtWrite: "t_pc t = AtWrite m c \<Longrightarrow> thread_step s t st =
    (case writeStep s (cachePath s (t_url t)) c st of
       (werr, off, st1) \<Rightarrow> Some (goto (AtClose m c werr off) t, st1))"
  by (simp add: thread_step_def Let_def)

lemma step_AtClose: "t_pc t = AtClose m c werr off \<Longrightarrow> thread_step s t st =
    Some (goto (AtDelete m (Inr c)) t, closeStep s (cachePath s (t_url t)) c werr off st)"
  by (simp add: thread_step_def Let_def)

lemma step_AtDelete: "t_pc t = AtDelete m r \<Longrightarrow> thread_step s t st =
    Some (goto (AtUnlock m r) t, Delete (t_url t) st)"
  by (simp add: thread_step_def Let_def)

lemma step_AtUnlock: "t_pc t = AtUnlock m r \<Longrightarrow> thread_step s t st =
    Some (goto (Done r) t, Unlock m st)"
  by (simp add: thread_step_def Let_def)

lemma step_Done: "t_pc t = Done r \<Longrightarrow> thread_step s t st = None"
  by (simp add: thread_step_def Let_def)

lemmas step_simps = step_AtGet step_AtFastRead step_AtLoadOrStore step_AtLock step_AtStat
  step_AtRead step_AtFetch step_InFetch step_AtCreate step_AtWrite step_AtClose
  step_AtDelete step_AtUnlock step_Done

lemma goto_simps [simp]: "t_pc (goto p t) = p" "t_url (goto p t) = t_url t"
  "t_invalidate (goto p t) = t_invalidate t"
  by (simp_all add: goto_def)

lemma thread_step_url: "thread_step s t st = Some (t', st') \<Longrightarrow> t_url t' = t_url t"
  by (cases "t_pc t")
    (auto simp: step_simps split: if_splits sum.splits prod.splits option.splits)

lemma thread_step_moves_left:
  "thread_step s t st = Some (t', st') \<Longrightarrow> moves_left (t_pc t') < moves_left (t_pc t)"
  by (cases "t_pc t")
    (auto simp: step_simps split: if_splits sum.splits prod.splits option.splits)

lemma LoadOrStore_fields [simp]:
  "files (snd (LoadOrStore key st)) = files st"
  "events (snd (LoadOrStore key st)) = events st"
  "locked (snd (LoadOrStore key st)) = locked st - {fresh st}"
  "fresh (snd (LoadOrStore key st)) = Suc (fresh st)"
  by (simp_all add: LoadOrStore_def Let_def split: option.splits)

lemma LoadOrStore_registry:
  "urlLocks (snd (LoadOrStore key st)) key = Some (fst (LoadOrStore key st))"
  "urlLocks st key = Some m \<Longrightarrow> fst (LoadOrStore key st) = m"
  "urlLocks st key = Some m \<Longrightarrow> urlLocks (snd (LoadOrStore key st)) = urlLocks st"
  "urlLocks st key = None \<Longrightarrow> fst (LoadOrStore key st) = fresh st"
  by (simp_all add: LoadOrStore_def Let_def split: option.splits)

lemma Delete_fields [simp]:
  "files (Delete key st) = files st" "events (Delete key st) = events st"
  "locked (Delete key st) = locked st" "fresh (Delete key st) = fresh st"
  by (simp_all add: Delete_def)

lemma Unlock_fields [simp]:
  "files (Unlock m st) = files st" "events (Unlock m st) = events st"
  "locked (Unlock m st) = locked st - {m}" "fresh (Unlock m st) = fresh st"
  "urlLocks (Unlock m st) = urlLocks st"
  by (simp_all add: Unlock_def)

lemma log_event_fields [simp]:
  "files (log_event e st) = files st" "events (log_event e st) = events st @ [e]"
  "locked (log_event e st) = locked st" "fresh (log_event e st) = fresh st"
  "urlLocks (log_event e st) = urlLocks st"
  by (simp_all add: log_event_def)

lemma set_file_fields [simp]:
  "files (set_file path blob st) = (files st)(path \<mapsto> blob)"
  "events (set_file path blob st) = events st"
  "locked (set_file path blob st) = locked st" "fresh (set_file path blob st) = fresh st"
  "urlLocks (set_file path blob st) = urlLocks st"
  by (simp_all add: set_file_def)

lemma pwrite_fields [simp]:
  "events (pwrite path off bytes st) = events st"
  "locked (pwrite path off bytes st) = locked st" "fresh (pwrite path off bytes st) = fresh st"
  "urlLocks (pwrite path off bytes st) = urlLocks st"
  by (simp_all add: pwrite_def split: option.splits)

lemma fetch_count_simps [simp]:
  "fetch_count u (log_event (EvFetch u) st) = Suc (fetch_count u st)"
  "fetch_count u (log_event (EvTransform b) st) = fetch_count u st"
  "fetch_count u (log_event (EvWrite p c) st) = fetch_count u st"
  "fetch_count u (snd (LoadOrStore key st)) = fetch_count u st"
  "fetch_count u (Delete key st) = fetch_count u st"
  "fetch_count u (Unlock m st) = fetch_count u st"
  "fetch_count u (set_file path blob st) = fetch_count u st"
  "fetch_count u (pwrite path off bytes st) = fetch_count u st"
  "fetch_count u (st\<lparr>locked := l\<rparr>) = fetch_count u st"
  by (simp_all add: fetch_count_def)

lemma read_stream:
  assumes "codec_sound s mc" "files st path = Some (gz_stream s mc)"
  shows "readFromCache s st path = Inr mc"
  using assms by (simp add: readFromCache_def codec_sound_def)

lemma warm_thread_step:
  assumes env: "cycle_succeeds s u mc"
    and st: "files st (cachePath s u) = Some (gz_stream s mc)" "fetch_count u st = 1"
    and t: "t_url t = u" "warm_pc mc (t_pc t)"
    and step: "thread_step s t st = Some (t', st')"
  shows "warm_pc mc (t_pc t') \<and> files st' (cachePath s u) = Some (gz_stream s mc)
     \<and> fetch_count u st' = 1"
proof -
  from env have cs: "codec_sound s mc" by (simp add: cycle_succeeds_def)
  have rd: "readFromCache s st (cachePath s u) = Inr mc"
    using read_stream [OF cs st(1)] .
  from env have ne: "u \<noteq> []" by (simp add: cycle_succeeds_def)
  from st t step rd ne show ?thesis
    by (cases "t_pc t") (auto simp: step_simps split: if_splits)
qed

lemma lock_owned_step:
  assumes lo: "lock_owned ts st" and i: "i < length ts"
    and step: "thread_step s (ts ! i) st = Some (t', st')"
  shows "lock_owned (ts[i := t']) st'"
proof -
  have keep: "in_cs (t_pc t') \<and> pc_mutex (t_pc t') = pc_mutex (t_pc (ts ! i))"
    if "in_cs (t_pc (ts ! i))" "\<forall>m r. t_pc (ts ! i) \<noteq> AtUnlock m r"
    using that step
    by (cases "t_pc (ts ! i)")
      (auto simp: step_simps split: if_splits sum.splits prod.splits option.splits)
  have lk: "locked st' \<subseteq> locked st
      \<or> (\<exists>m. t_pc (ts ! i) = AtLock m \<and> t_pc t' = AtStat m \<and> locked st' = insert m (locked st))"
    using step
    by (cases "t_pc (ts ! i)")
      (auto simp: step_simps createStep_def writeStep_def closeStep_def
        split: if_splits sum.splits prod.splits option.splits write_fault.splits)
  have rel: "m \<notin> locked st'" if "t_pc (ts ! i) = AtUnlock m r" for m r
    using that step by (auto simp: step_simps)
  show ?thesis
    unfolding lock_owned_def
  proof
    fix m assume m: "m \<in> locked st'"
    show "\<exists>j<length (ts[i := t']). in_cs (t_pc (ts[i := t'] ! j))
        \<and> pc_mutex (t_pc (ts[i := t'] ! j)) = Some m"
    proof (cases "m \<in> locked st")
      case True
      with lo obtain j where j: "j < length ts" "in_cs (t_pc (ts ! j))"
        "pc_mutex (t_pc (ts ! j)) = Some m"
        by (auto simp: lock_owned_def)
      show ?thesis
      proof (cases "j = i")
        case False
        with j show ?thesis by (intro exI [of _ j]) simp
      next
        case True
        have "\<forall>m' r. t_pc (ts ! i) \<noteq> AtUnlock m' r"
        proof (intro allI notI)
          fix m' r assume u: "t_pc (ts ! i) = AtUnlock m' r"
          with j True have "m' = m" by simp
          with rel [OF u] m show False by simp
        qed
        with keep j True i show ?thesis by (intro exI [of _ i]) simp
      qed
    next
      case False
      with lk m obtain m' where "t_pc (ts ! i) = AtLock m'" "t_pc t' = AtStat m'"
        "locked st' = insert m' (locked st)" by auto
      with False m i show ?thesis by (intro exI [of _ i]) auto
    qed
  qed
qed

lemma warm_step:
  assumes env: "cycle_succeeds s u mc" and w: "warm s u mc ts st" and i: "i < length ts"
    and step: "thread_step s (ts ! i) st = Some (t', st')"
  shows "warm s u mc (ts[i := t']) st'"
proof -
  from w i have t: "t_url (ts ! i) = u" "warm_pc mc (t_pc (ts ! i))"
    and st: "files st (cachePath s u) = Some (gz_stream s mc)" "fetch_count u st = 1"
    by (simp_all add: warm_def)
  from warm_thread_step [OF env st t step] thread_step_url [OF step] t(1) w i
  show ?thesis
    by (auto simp: warm_def nth_list_update)
qed

section \<open>A goroutine alone behaves as \<open>Get\<close>\<close>

text \<open>
  Whenever \<open>Get\<close> returns, a goroutine that runs the same request with nobody
  else moving has returned the same result after thirteen moves, and has left the
  world in the same state.
\<close>

lemma goto_goto [simp]: "goto p (goto q t) = goto p t"
  by (simp add: goto_def)

lemma run_alone_Done [simp]: "t_pc t = Done r \<Longrightarrow> run_alone s n (t, st) = (t, st)"
  by (cases n) (simp_all add: step_simps)

lemma set_file_twice [simp]: "set_file p b (set_file p a st) = set_file p b st"
  by (simp add: set_file_def)

lemma run_tail:
  "t_pc t = AtDelete m r \<Longrightarrow>
   run_alone s (Suc (Suc n)) (t, st) = (goto (Done r) t, Unlock m (Delete (t_url t) st))"
  by (simp add: step_simps)

lemma run_fetch:
  assumes "t_pc t = AtFetch m"
    "fetchTransformStore s (t_url t) (cachePath s (t_url t)) st = (r, st3)"
  shows "run_alone s (Suc (Suc (Suc (Suc (Suc (Suc (Suc n))))))) (t, st)
       = (goto (Done r) t, Unlock m (Delete (t_url t) st3))"
proof (cases "fetchPage (backend s) (t_url t)")
  case (Inl e)
  from assms(2) have "r = Inl e" "st3 = log_event (EvFetch (t_url t)) st"
    by (simp_all add: fetchTransformStore_def Inl)
  with assms(1) Inl show ?thesis
    by (simp add: step_simps)
next
  case (Inr body)
  let ?c = "case minifier s body of None \<Rightarrow> body | Some x \<Rightarrow> x"
  let ?p = "cachePath s (t_url t)"
  let ?st1 = "log_event (EvWrite ?p ?c) (log_event (EvTransform body)
      (log_event (EvFetch (t_url t)) st))"
  from assms(2) Inr have r: "r = Inr ?c" and st3: "st3 = snd (writeToCache s ?p ?c ?st1)"
    by (simp_all add: fetchTransformStore_def Let_def split: prod.splits)
  from assms(1) Inr r st3 show ?thesis
    by (cases "write_fault s ?p")
      (simp_all add: step_simps writeToCache_def createStep_def
        writeStep_def closeStep_def pwrite_def min_def)
qed


lemma run_locked:
  assumes "t_pc t = AtStat m"
    "lockedSection s (t_url t) (cachePath s (t_url t)) st = (r, st3)"
  shows "run_alone s (Suc (Suc (Suc (Suc (Suc (Suc (Suc (Suc (Suc n))))))))) (t, st)
       = (goto (Done r) t, Unlock m (Delete (t_url t) st3))"
proof (cases "cachePath s (t_url t) \<in> dom (files st)")
  case False
  with assms(2) have f: "fetchTransformStore s (t_url t) (cachePath s (t_url t)) st = (r, st3)"
    by (simp add: lockedSection_def)
  have "run_alone s (Suc (Suc (Suc (Suc (Suc (Suc (Suc (Suc n)))))))) (goto (AtFetch m) t, st)
      = (goto (Done r) t, Unlock m (Delete (t_url t) st3))"
    using run_fetch [of "goto (AtFetch m) t" m s st r st3 "Suc n"] f by simp
  with assms(1) False show ?thesis by (simp add: step_simps)
next
  case True
  show ?thesis
  proof (cases "readFromCache s st (cachePath s (t_url t))")
    case (Inr content)
    with assms(2) True have "r = Inr content" "st3 = st"
      by (simp_all add: lockedSection_def)
    with assms(1) True Inr show ?thesis
      by (simp add: step_simps)
  next
    case (Inl e)
    with assms(2) True
    have f: "fetchTransformStore s (t_url t) (cachePath s (t_url t)) st = (r, st3)"
      by (simp add: lockedSection_def)
    have "run_alone s (Suc (Suc (Suc (Suc (Suc (Suc (Suc n))))))) (goto (AtFetch m) t, st)
        = (goto (Done r) t, Unlock m (Delete (t_url t) st3))"
      using run_fetch [of "goto (AtFetch m) t" m s st r st3 n] f by simp
    with assms(1) True Inl show ?thesis by (simp add: step_simps)
  qed
qed

lemma run_downloadAndCache:
  assumes "t_pc t = AtLoadOrStore"
    "downloadAndCache s (t_url t) (cachePath s (t_url t)) st = Some (r, st')"
  shows "run_alone s (Suc (Suc (Suc (Suc (Suc (Suc (Suc (Suc (Suc (Suc (Suc n)))))))))))
           (t, st) = (goto (Done r) t, st')"
proof -
  obtain m st1 where ls0: "LoadOrStore (t_url t) st = (m, st1)"
    by (cases "LoadOrStore (t_url t) st")
  define st2 where "st2 = st1\<lparr>locked := insert m (locked st1)\<rparr>"
  obtain r3 st3 where ls: "lockedSection s (t_url t) (cachePath s (t_url t)) st2 = (r3, st3)"
    by (cases "lockedSection s (t_url t) (cachePath s (t_url t)) st2")
  from assms(2) ls0 ls have free: "m \<notin> locked st1" and r: "r = r3"
    and st': "st' = Unlock m (Delete (t_url t) st3)"
    by (simp_all add: downloadAndCache_def st2_def split: if_splits)
  have a: "run_alone s (Suc (Suc (Suc (Suc (Suc (Suc (Suc (Suc (Suc (Suc (Suc n)))))))))))
        (t, st)
      = run_alone s (Suc (Suc (Suc (Suc (Suc (Suc (Suc (Suc (Suc (Suc n))))))))))
        (goto (AtLock m) t, st1)"
    using assms(1) ls0 by (simp add: step_simps)
  have b: "run_alone s (Suc (Suc (Suc (Suc (Suc (Suc (Suc (Suc (Suc (Suc n))))))))))
        (goto (AtLock m) t, st1)
      = run_alone s (Suc (Suc (Suc (Suc (Suc (Suc (Suc (Suc (Suc n)))))))))
        (goto (AtStat m) t, st2)"
    using free by (simp add: step_simps st2_def)
  have c: "run_alone s (Suc (Suc (Suc (Suc (Suc (Suc (Suc (Suc (Suc n)))))))))
          (goto (AtStat m) t, st2) = (goto (Done r3) t, Unlock m (Delete (t_url t) st3))"
    using run_locked [of "goto (AtStat m) t" m s st2 r3 st3 n] ls by simp
  from a b c r st' show ?thesis by simp
qed

lemma run_alone_Get:
  assumes "Get s url invalidate st = Some (r, st')"
  shows "run_alone s 13 (request url invalidate, st)
       = (goto (Done r) (request url invalidate), st')"
proof -
  let ?t = "request url invalidate"
  have t: "t_pc ?t = AtGet" "t_url ?t = url" "t_invalidate ?t = invalidate"
    by (simp_all add: request_def)
  have n: "(13::nat) = Suc (Suc (Suc (Suc (Suc (Suc (Suc (Suc (Suc (Suc (Suc (Suc (Suc 0))))))))))))"
    by simp
  show ?thesis
  proof (cases "url = []")
    case True
    with assms t show ?thesis by (simp add: n Get_def step_simps)
  next
    case False
    note ne = this
    show ?thesis
    proof (cases "\<not> invalidate \<and> cachePath s url \<in> dom (files st)")
      case False
      with assms ne have d: "downloadAndCache s url (cachePath s url) st = Some (r, st')"
        by (auto simp: Get_def Let_def)
      have "run_alone s (Suc (Suc (Suc (Suc (Suc (Suc (Suc (Suc (Suc (Suc (Suc (Suc 0))))))))))))
            (goto AtLoadOrStore ?t, st) = (goto (Done r) ?t, st')"
        using run_downloadAndCache [of "goto AtLoadOrStore ?t" s st r st' "Suc 0"] d t by simp
      with False ne t show ?thesis by (auto simp: n step_simps)
    next
      case True
      show ?thesis
      proof (cases "readFromCache s st (cachePath s url)")
        case (Inr content)
        with assms ne True have "r = Inr content" "st' = st"
          by (simp_all add: Get_def Let_def)
        with ne True t Inr show ?thesis by (simp add: n step_simps)
      next
        case (Inl e)
        with assms ne True have d: "downloadAndCache s url (cachePath s url) st = Some (r, st')"
          by (auto simp: Get_def Let_def)
        have "run_alone s (Suc (Suc (Suc (Suc (Suc (Suc (Suc (Suc (Suc (Suc (Suc 0)))))))))))
              (goto AtLoadOrStore ?t, st) = (goto (Done r) ?t, st')"
          using run_downloadAndCache [of "goto AtLoadOrStore ?t" s st r st' 0] d t by simp
        with True ne t Inl show ?thesis by (simp add: n step_simps)
      qed
    qed
  qed
qed

section \<open>The invariants are kept by every move\<close>

lemma cold_pc_cs_locked:
  "in_cs q \<Longrightarrow> cold_pc s u mc st q \<Longrightarrow> \<exists>m. urlLocks st u = Some m \<and> m \<in> locked st"
  by (cases q) auto

lemma cold_pc_frame:
  assumes "cold_pc s u mc st q" "urlLocks st' u = urlLocks st u"
    "\<And>m. urlLocks st u = Some m \<Longrightarrow> m \<in> locked st \<Longrightarrow> m \<in> locked st'"
    "files st' (cachePath s u) = files st (cachePath s u)"
    "fetch_count u st' = fetch_count u st"
  shows "cold_pc s u mc st' q"
  using assms by (cases q) auto

lemma cold_pc_frame_waiting:
  assumes "cold_pc s u mc st q" "\<not> in_cs q" "urlLocks st' u = urlLocks st u"
    "files st (cachePath s u) \<noteq> None \<Longrightarrow> files st' (cachePath s u) \<noteq> None"
    "fetch_count u st = 1 \<Longrightarrow> fetch_count u st' = 1"
  shows "cold_pc s u mc st' q"
  using assms by (cases q) auto

lemma cold_assemble:
  assumes c: "cold s u mc ts st" and i: "i < length ts"
    and url: "t_url t' = u"
    and new: "cold_pc s u mc st' (t_pc t')"
    and others: "\<And>j. j < length ts \<Longrightarrow> j \<noteq> i \<Longrightarrow> cold_pc s u mc st' (t_pc (ts ! j))"
    and enter: "in_cs (t_pc t') \<Longrightarrow> \<not> in_cs (t_pc (ts ! i))
        \<Longrightarrow> (\<forall>j<length ts. \<not> in_cs (t_pc (ts ! j)))"
    and leave: "\<not> in_cs (t_pc t') \<Longrightarrow> \<not> in_cs (t_pc (ts ! i))
        \<and> files st' (cachePath s u) = files st (cachePath s u)
        \<and> fetch_count u st' = fetch_count u st"
    and F: "\<And>m. urlLocks st' u = Some m \<Longrightarrow> m < fresh st'"
    and G1: "files st' (cachePath s u) = None
        \<or> (\<exists>k. files st' (cachePath s u) = Some (take k (gz_stream s mc)))"
    and G2: "files st' (cachePath s u) \<noteq> None \<Longrightarrow> fetch_count u st' = 1"
    and G3: "fetch_count u st' \<le> 1"
  shows "cold s u mc (ts[i := t']) st'"
proof -
  from c have A: "\<And>j. j < length ts \<Longrightarrow> t_url (ts ! j) = u"
    and U: "\<And>j k. j < length ts \<Longrightarrow> k < length ts \<Longrightarrow> in_cs (t_pc (ts ! j))
         \<Longrightarrow> in_cs (t_pc (ts ! k)) \<Longrightarrow> j = k"
    and Z: "(\<forall>j<length ts. \<not> in_cs (t_pc (ts ! j))) \<Longrightarrow>
         files st (cachePath s u) = None \<and> fetch_count u st = 0"
    by (auto simp: cold_def)
  have a: "\<forall>j<length (ts[i := t']). t_url (ts[i := t'] ! j) = u
       \<and> cold_pc s u mc st' (t_pc (ts[i := t'] ! j))"
    using A url new others i by (auto simp: nth_list_update)
  have u: "j = k" if jk: "j < length ts" "k < length ts"
    "in_cs (t_pc (ts[i := t'] ! j))" "in_cs (t_pc (ts[i := t'] ! k))" for j k
  proof (cases "in_cs (t_pc t')")
    case True
    note t' = this
    show ?thesis
    proof (cases "in_cs (t_pc (ts ! i))")
      case True
      have "l = i" if "l < length ts" "in_cs (t_pc (ts[i := t'] ! l))" for l
      proof (rule ccontr)
        assume "l \<noteq> i"
        with that have "in_cs (t_pc (ts ! l))" by simp
        with U [OF that(1) i this True] \<open>l \<noteq> i\<close> show False by simp
      qed
      with jk show ?thesis by blast
    next
      case False
      from enter [OF t' False] have none: "\<forall>l<length ts. \<not> in_cs (t_pc (ts ! l))" .
      have "l = i" if "l < length ts" "in_cs (t_pc (ts[i := t'] ! l))" for l
      proof (rule ccontr)
        assume "l \<noteq> i"
        with that have "in_cs (t_pc (ts ! l))" by simp
        with none that(1) show False by simp
      qed
      with jk show ?thesis by blast
    qed
  next
    case False
    with jk i have "j \<noteq> i" "k \<noteq> i" by (auto simp: nth_list_update split: if_splits)
    with jk have "in_cs (t_pc (ts ! j))" "in_cs (t_pc (ts ! k))" by simp_all
    with U jk show ?thesis by simp
  qed
  have z: "files st' (cachePath s u) = None \<and> fetch_count u st' = 0"
    if none: "\<forall>j<length ts. \<not> in_cs (t_pc (ts[i := t'] ! j))"
  proof -
    from none i have t': "\<not> in_cs (t_pc t')" by (auto simp: nth_list_update)
    from leave [OF t'] have old: "\<not> in_cs (t_pc (ts ! i))"
      and same: "files st' (cachePath s u) = files st (cachePath s u)"
        "fetch_count u st' = fetch_count u st" by simp_all
    have "\<forall>j<length ts. \<not> in_cs (t_pc (ts ! j))"
    proof (intro allI impI)
      fix j assume j: "j < length ts"
      show "\<not> in_cs (t_pc (ts ! j))"
      proof (cases "j = i")
        case True
        with old show ?thesis by simp
      next
        case False
        with none j show ?thesis by (auto simp: nth_list_update)
      qed
    qed
    from Z [OF this] same show ?thesis by simp
  qed
  show ?thesis
    unfolding cold_def
    using a u z F G1 G2 G3 by simp
qed

lemma cold_pc_LoadOrStore:
  assumes "cold_pc s u mc st q" "\<And>m. urlLocks st u = Some m \<Longrightarrow> m < fresh st"
  shows "cold_pc s u mc (snd (LoadOrStore u st)) q"
proof (cases "urlLocks st u")
  case None
  with assms(1) show ?thesis by (cases q) auto
next
  case (Some m)
  with assms(2) have "m < fresh st" by simp
  with Some assms(1) LoadOrStore_registry(3) [OF Some] show ?thesis
    by (cases q) auto
qed

lemma cold_waiting_warm: "\<not> in_cs q \<Longrightarrow> cold_pc s u mc st q \<Longrightarrow> warm_pc mc q"
  by (cases q) auto

lemma cold_step:
  assumes env: "cycle_succeeds s u mc" and c: "cold s u mc ts st" and i: "i < length ts"
    and step: "thread_step s (ts ! i) st = Some (t', st')"
  shows "cold s u mc (ts[i := t']) st' \<or> warm s u mc (ts[i := t']) st'"
proof -
  let ?p = "cachePath s u"
  from env obtain body where ne: "u \<noteq> []" and body: "fetchPage (backend s) u = Inr body"
    and mc: "mc = (case minifier s body of None \<Rightarrow> body | Some m \<Rightarrow> m)"
    and nf: "write_fault s ?p = NoFault" and cs: "codec_sound s mc"
    by (auto simp: cycle_succeeds_def)
  from c have A: "\<And>j. j < length ts \<Longrightarrow> t_url (ts ! j) = u"
    and P: "\<And>j. j < length ts \<Longrightarrow> cold_pc s u mc st (t_pc (ts ! j))"
    and U: "\<And>j k. j < length ts \<Longrightarrow> k < length ts \<Longrightarrow> in_cs (t_pc (ts ! j))
         \<Longrightarrow> in_cs (t_pc (ts ! k)) \<Longrightarrow> j = k"
    and Z: "(\<forall>j<length ts. \<not> in_cs (t_pc (ts ! j))) \<Longrightarrow>
         files st ?p = None \<and> fetch_count u st = 0"
    and F: "\<And>m. urlLocks st u = Some m \<Longrightarrow> m < fresh st"
    and G1: "files st ?p = None \<or> (\<exists>k. files st ?p = Some (take k (gz_stream s mc)))"
    and G2: "files st ?p \<noteq> None \<Longrightarrow> fetch_count u st = 1"
    and G3: "fetch_count u st \<le> 1"
    by (auto simp: cold_def)
  from A i have ti: "t_url (ts ! i) = u" by simp
  from P i have ci: "cold_pc s u mc st (t_pc (ts ! i))" by simp
  from thread_step_url [OF step] ti have url: "t_url t' = u" by simp
  have waiting: "\<not> in_cs (t_pc (ts ! j))"
    if "in_cs (t_pc (ts ! i))" "j < length ts" "j \<noteq> i" for j
    using U [OF that(2) i _ that(1)] that(3) by blast
  show ?thesis
  proof (cases "t_pc (ts ! i)")
    case AtGet
    with step ne ti have t': "t_pc t' = AtFastRead \<or> t_pc t' = AtLoadOrStore" and st': "st' = st"
      by (auto simp: step_simps split: if_splits)
    have "cold s u mc (ts[i := t']) st'"
      using c i url t' st' AtGet P F G1 G2 G3
      by (intro cold_assemble [of s u mc ts st]) auto
    then show ?thesis ..
  next
    case AtFastRead
    have rd: "readFromCache s st ?p = Inr mc \<and> files st ?p \<noteq> None
           \<or> (\<exists>e. readFromCache s st ?p = Inl e)"
    proof (cases "files st ?p")
      case None
      then show ?thesis by (simp add: readFromCache_def)
    next
      case (Some blob)
      with G1 obtain k where "files st ?p = Some (take k (gz_stream s mc))" by auto
      from read_prefix [OF cs this] Some show ?thesis by auto
    qed
    with step ti AtFastRead G2
    have t': "t_pc t' = AtLoadOrStore
         \<or> (t_pc t' = Done (Inr mc) \<and> files st ?p \<noteq> None \<and> fetch_count u st = 1)"
      and st': "st' = st"
      by (auto simp: step_simps split: sum.splits)
    have "cold s u mc (ts[i := t']) st'"
      using c i url t' st' AtFastRead P F G1 G2 G3
      by (intro cold_assemble [of s u mc ts st]) auto
    then show ?thesis ..
  next
    case AtLoadOrStore
    with step ti have t': "t_pc t' = AtLock (fst (LoadOrStore u st))"
      and st': "st' = snd (LoadOrStore u st)"
      by (auto simp: step_simps)
    have F': "m < fresh st'" if "urlLocks st' u = Some m" for m
    proof (cases "urlLocks st u")
      case None
      with that st' LoadOrStore_registry(1) [of u st] LoadOrStore_registry(4) [OF None]
      show ?thesis by simp
    next
      case (Some m0)
      with that st' LoadOrStore_registry(3) [OF Some] F [OF Some] show ?thesis by simp
    qed
    have "cold s u mc (ts[i := t']) st'"
    proof (rule cold_assemble [OF c i url])
      show "cold_pc s u mc st' (t_pc t')"
        using t' st' by (simp add: LoadOrStore_registry(1))
      show "cold_pc s u mc st' (t_pc (ts ! j))" if "j < length ts" "j \<noteq> i" for j
        unfolding st' using P [OF that(1)] F by (rule cold_pc_LoadOrStore)
      show "\<forall>j<length ts. \<not> in_cs (t_pc (ts ! j))" if "in_cs (t_pc t')" 
        using that t' by simp
      show "\<not> in_cs (t_pc (ts ! i)) \<and> files st' ?p = files st ?p
          \<and> fetch_count u st' = fetch_count u st"
        using AtLoadOrStore st' by simp
      show "m < fresh st'" if "urlLocks st' u = Some m" for m using that by (rule F')
      show "files st' ?p = None \<or> (\<exists>k. files st' ?p = Some (take k (gz_stream s mc)))"
        using G1 st' by simp
      show "fetch_count u st' = 1" if "files st' ?p \<noteq> None" using that G2 st' by simp
      show "fetch_count u st' \<le> 1" using G3 st' by simp
    qed
    then show ?thesis ..
  next
    case (AtLock m)
    with step have free: "m \<notin> locked st" and t': "t_pc t' = AtStat m"
      and st': "st' = st\<lparr>locked := insert m (locked st)\<rparr>"
      by (auto simp: step_simps split: if_splits)
    from ci AtLock have reg: "urlLocks st u = Some m" by simp
    have none: "\<forall>j<length ts. \<not> in_cs (t_pc (ts ! j))"
    proof (intro allI impI notI)
      fix j assume "j < length ts" "in_cs (t_pc (ts ! j))"
      with cold_pc_cs_locked [OF this(2) P [OF this(1)]] reg free show False by auto
    qed
    from Z [OF none] have z: "files st ?p = None" "fetch_count u st = 0" by simp_all
    have "cold s u mc (ts[i := t']) st'"
    proof (rule cold_assemble [OF c i url])
      show "cold_pc s u mc st' (t_pc t')"
        using t' st' reg z by simp
      show "cold_pc s u mc st' (t_pc (ts ! j))" if "j < length ts" "j \<noteq> i" for j
        using P [OF that(1)] by (rule cold_pc_frame) (simp_all add: st')
      show "\<forall>j<length ts. \<not> in_cs (t_pc (ts ! j))" by (rule none)
      show "\<not> in_cs (t_pc (ts ! i)) \<and> files st' ?p = files st ?p
          \<and> fetch_count u st' = fetch_count u st" if "\<not> in_cs (t_pc t')"
        using that t' by simp
      show "m' < fresh st'" if "urlLocks st' u = Some m'" for m'
        using that F st' by simp
      show "files st' ?p = None \<or> (\<exists>k. files st' ?p = Some (take k (gz_stream s mc)))"
        using G1 st' by simp
      show "fetch_count u st' = 1" if "files st' ?p \<noteq> None" using that G2 st' by simp
      show "fetch_count u st' \<le> 1" using G3 st' by simp
    qed
    then show ?thesis ..
  next
    case (AtStat m)
    with ci step ti have t': "t_pc t' = AtFetch m" and st': "st' = st"
      by (auto simp: step_simps split: if_splits)
    have "cold s u mc (ts[i := t']) st'"
      using c i url t' st' AtStat ci P F G1 G2 G3
      by (intro cold_assemble [of s u mc ts st]) auto
    then show ?thesis ..
  next
    case (AtRead m)
    with ci show ?thesis by simp
  next
    case (AtFetch m)
    with step ti have t': "t_pc t' = InFetch m" and st': "st' = log_event (EvFetch u) st"
      by (auto simp: step_simps)
    from AtFetch have incs: "in_cs (t_pc (ts ! i))" by simp
    from ci AtFetch have z: "files st ?p = None" "fetch_count u st = 0" by simp_all
    have "cold s u mc (ts[i := t']) st'"
    proof (rule cold_assemble [OF c i url])
      show "cold_pc s u mc st' (t_pc t')"
        using t' st' ci AtFetch by simp
      show "cold_pc s u mc st' (t_pc (ts ! j))" if "j < length ts" "j \<noteq> i" for j
        using P [OF that(1)] waiting [OF incs that]
        by (rule cold_pc_frame_waiting) (simp_all add: st' z)
      show "\<forall>j<length ts. \<not> in_cs (t_pc (ts ! j))" if "\<not> in_cs (t_pc (ts ! i))"
        using that incs by simp
      show "\<not> in_cs (t_pc (ts ! i)) \<and> files st' ?p = files st ?p
          \<and> fetch_count u st' = fetch_count u st" if "\<not> in_cs (t_pc t')"
        using that t' by simp
      show "m' < fresh st'" if "urlLocks st' u = Some m'" for m'
        using that F st' by simp
      show "files st' ?p = None \<or> (\<exists>k. files st' ?p = Some (take k (gz_stream s mc)))"
        using z st' by simp
      show "fetch_count u st' = 1" if "files st' ?p \<noteq> None" using z st' by simp
      show "fetch_count u st' \<le> 1" using z st' by simp
    qed
    then show ?thesis ..
  next
    case (InFetch m)
    with step ti body mc have t': "t_pc t' = AtCreate m mc"
      and st': "st' = log_event (EvTransform body) st"
      by (auto simp: step_simps)
    from InFetch have incs: "in_cs (t_pc (ts ! i))" by simp
    have "cold s u mc (ts[i := t']) st'"
    proof (rule cold_assemble [OF c i url])
      show "cold_pc s u mc st' (t_pc t')"
        using t' st' ci InFetch by simp
      show "cold_pc s u mc st' (t_pc (ts ! j))" if "j < length ts" "j \<noteq> i" for j
        using P [OF that(1)] waiting [OF incs that]
        by (rule cold_pc_frame_waiting) (simp_all add: st')
      show "\<forall>j<length ts. \<not> in_cs (t_pc (ts ! j))" if "\<not> in_cs (t_pc (ts ! i))"
        using that incs by simp
      show "\<not> in_cs (t_pc (ts ! i)) \<and> files st' ?p = files st ?p
          \<and> fetch_count u st' = fetch_count u st" if "\<not> in_cs (t_pc t')"
        using that t' by simp
      show "m' < fresh st'" if "urlLocks st' u = Some m'" for m'
        using that F st' by simp
      show "files st' ?p = None \<or> (\<exists>k. files st' ?p = Some (take k (gz_stream s mc)))"
        using G1 st' by simp
      show "fetch_count u st' = 1" if "files st' ?p \<noteq> None" using that G2 st' by simp
      show "fetch_count u st' \<le> 1" using G3 st' by simp
    qed
    then show ?thesis ..
  next
    case (AtCreate m content)
    with ci have cm: "content = mc" and cnt: "fetch_count u st = 1" by simp_all
    from AtCreate step ti nf cm have t': "t_pc t' = AtWrite m mc"
      and st': "st' = set_file ?p [] (log_event (EvWrite ?p mc) st)"
      by (auto simp: step_simps createStep_def)
    from AtCreate have incs: "in_cs (t_pc (ts ! i))" by simp
    have "cold s u mc (ts[i := t']) st'"
    proof (rule cold_assemble [OF c i url])
      show "cold_pc s u mc st' (t_pc t')"
        using t' st' ci AtCreate by simp
      show "cold_pc s u mc st' (t_pc (ts ! j))" if "j < length ts" "j \<noteq> i" for j
        using P [OF that(1)] waiting [OF incs that]
        by (rule cold_pc_frame_waiting) (simp_all add: st')
      show "\<forall>j<length ts. \<not> in_cs (t_pc (ts ! j))" if "\<not> in_cs (t_pc (ts ! i))"
        using that incs by simp
      show "\<not> in_cs (t_pc (ts ! i)) \<and> files st' ?p = files st ?p
          \<and> fetch_count u st' = fetch_count u st" if "\<not> in_cs (t_pc t')"
        using that t' by simp
      show "m' < fresh st'" if "urlLocks st' u = Some m'" for m'
        using that F st' by simp
      show "files st' ?p = None \<or> (\<exists>k. files st' ?p = Some (take k (gz_stream s mc)))"
        using st' stream_prefixes(1) [of s mc] by simp
      show "fetch_count u st' = 1" if "files st' ?p \<noteq> None" using cnt st' by simp
      show "fetch_count u st' \<le> 1" using cnt st' by simp
    qed
    then show ?thesis ..
  next
    case (AtWrite m content)
    with ci have cm: "content = mc" and cnt: "fetch_count u st = 1"
      and fl: "files st ?p = Some []" by simp_all
    from AtWrite step ti nf cm fl have t': "t_pc t' = AtClose m mc None (length (gz_write s mc))"
      and st': "st' = set_file ?p (gz_write s mc) st"
      by (auto simp: step_simps writeStep_def pwrite_def)
    from AtWrite have incs: "in_cs (t_pc (ts ! i))" by simp
    have "cold s u mc (ts[i := t']) st'"
    proof (rule cold_assemble [OF c i url])
      show "cold_pc s u mc st' (t_pc t')"
        using t' st' ci AtWrite by simp
      show "cold_pc s u mc st' (t_pc (ts ! j))" if "j < length ts" "j \<noteq> i" for j
        using P [OF that(1)] waiting [OF incs that]
        by (rule cold_pc_frame_waiting) (simp_all add: st')
      show "\<forall>j<length ts. \<not> in_cs (t_pc (ts ! j))" if "\<not> in_cs (t_pc (ts ! i))"
        using that incs by simp
      show "\<not> in_cs (t_pc (ts ! i)) \<and> files st' ?p = files st ?p
          \<and> fetch_count u st' = fetch_count u st" if "\<not> in_cs (t_pc t')"
        using that t' by simp
      show "m' < fresh st'" if "urlLocks st' u = Some m'" for m'
        using that F st' by simp
      show "files st' ?p = None \<or> (\<exists>k. files st' ?p = Some (take k (gz_stream s mc)))"
        using st' stream_prefixes(3) [of s mc] by simp
      show "fetch_count u st' = 1" if "files st' ?p \<noteq> None" using cnt st' by simp
      show "fetch_count u st' \<le> 1" using cnt st' by simp
    qed
    then show ?thesis ..
  next
    case (AtClose m content werr off)
    with ci have cm: "content = mc" "werr = None" "off = length (gz_write s mc)"
      and cnt: "fetch_count u st = 1" and fl: "files st ?p = Some (gz_write s mc)"
      by simp_all
    from AtClose step ti nf cm fl have t': "t_pc t' = AtDelete m (Inr mc)"
      and st': "st' = set_file ?p (gz_stream s mc) st"
      by (auto simp: step_simps closeStep_def pwrite_def gz_stream_def)
    from AtClose have incs: "in_cs (t_pc (ts ! i))" by simp
    have "warm s u mc (ts[i := t']) st'"
      unfolding warm_def
    proof (intro conjI allI impI)
      fix j assume j: "j < length (ts[i := t'])"
      show "t_url (ts[i := t'] ! j) = u"
        using j A url by (cases "j = i") simp_all
      show "warm_pc mc (t_pc (ts[i := t'] ! j))"
      proof (cases "j = i")
        case True
        with j t' show ?thesis by simp
      next
        case False
        with j have jl: "j < length ts" by simp
        from cold_waiting_warm [OF waiting [OF incs jl False] P [OF jl]] False
        show ?thesis by simp
      qed
    next
      show "files st' ?p = Some (gz_stream s mc)" using st' by simp
      show "fetch_count u st' = 1" using st' cnt by simp
    qed
    then show ?thesis ..
  next
    case (AtDelete m r)
    with ci show ?thesis by simp
  next
    case (AtUnlock m r)
    with ci show ?thesis by simp
  next
    case (Done r)
    with step show ?thesis by (simp add: step_simps)
  qed
qed

lemma sys_step_cases:
  obtains (stay) "sys_step s i (ts, st) = (ts, st)"
      "i \<ge> length ts \<or> thread_step s (ts ! i) st = None"
  | (move) t' st' where "i < length ts" "thread_step s (ts ! i) st = Some (t', st')"
      "sys_step s i (ts, st) = (ts[i := t'], st')"
  by (cases "i < length ts"; cases "thread_step s (ts ! i) st")
    (auto simp: sys_step_def)

lemma coalescing_step:
  assumes env: "cycle_succeeds s u mc" and inv: "coalescing s u mc cfg"
  shows "coalescing s u mc (sys_step s i cfg)"
proof -
  obtain ts st where cfg: "cfg = (ts, st)" by (cases cfg)
  show ?thesis
  proof (cases rule: sys_step_cases [of s i ts st])
    case stay
    with inv cfg show ?thesis by simp
  next
    case (move t' st')
    from inv cfg have cw: "cold s u mc ts st \<or> warm s u mc ts st"
      and lo: "lock_owned ts st"
      by (simp_all add: coalescing_def)
    from cw have "cold s u mc (ts[i := t']) st' \<or> warm s u mc (ts[i := t']) st'"
    proof
      assume "cold s u mc ts st"
      from cold_step [OF env this move(1,2)] show ?thesis .
    next
      assume "warm s u mc ts st"
      from warm_step [OF env this move(1,2)] show ?thesis ..
    qed
    with lock_owned_step [OF lo move(1,2)] move(3) cfg show ?thesis
      by (simp add: coalescing_def)
  qed
qed

lemma coalescing_run:
  assumes env: "cycle_succeeds s u mc"
  shows "coalescing s u mc cfg \<Longrightarrow> coalescing s u mc (run s sched cfg)"
proof (induction sched arbitrary: cfg)
  case Nil
  then show ?case by (simp add: run_def)
next
  case (Cons i sched)
  from coalescing_step [OF env Cons.prems] have "coalescing s u mc (sys_step s i cfg)" .
  from Cons.IH [OF this] show ?case by (simp add: run_def)
qed

lemma run_append: "run s (a @ b) cfg = run s b (run s a cfg)"
  by (simp add: run_def)

lemma coalescing_init:
  assumes "\<forall>t\<in>set ts. t_url t = u \<and> t_pc t = AtGet"
    "files st (cachePath s u) = None" "urlLocks st u = None" "locked st = {}"
    "fetch_count u st = 0"
  shows "coalescing s u mc (ts, st)"
  using assms by (auto simp: coalescing_def cold_def lock_owned_def)

lemma coalescing_count: "coalescing s u mc (ts, st) \<Longrightarrow> fetch_count u st \<le> 1"
  by (auto simp: coalescing_def cold_def warm_def)

lemma coalescing_result:
  assumes "coalescing s u mc (ts, st)" "j < length ts" "t_pc (ts ! j) = Done r"
  shows "r = Inr mc"
proof -
  from assms(1) have "cold_pc s u mc st (t_pc (ts ! j)) \<or> warm_pc mc (t_pc (ts ! j))"
    using assms(2) by (auto simp: coalescing_def cold_def warm_def)
  with assms(3) show ?thesis by auto
qed

lemma coalescing_done_count:
  assumes "coalescing s u mc (ts, st)" "ts \<noteq> []" "all_done ts"
  shows "fetch_count u st = 1"
proof -
  from assms(2) have l: "0 < length ts" by simp
  with assms(3) obtain r where r: "t_pc (ts ! 0) = Done r" by (auto simp: all_done_def)
  from assms(1) have "cold_pc s u mc st (t_pc (ts ! 0)) \<and> True \<or> warm s u mc ts st"
    using l by (auto simp: coalescing_def cold_def)
  with r show ?thesis by (auto simp: warm_def)
qed

lemma thread_step_enabled:
  assumes "\<And>m. t_pc t \<noteq> AtLock m" "\<And>r. t_pc t \<noteq> Done r"
  shows "thread_step s t st \<noteq> None"
  using assms
  by (cases "t_pc t")
    (auto simp: step_simps split: if_splits sum.splits prod.splits option.splits)

lemma in_cs_enabled: "in_cs (t_pc t) \<Longrightarrow> thread_step s t st \<noteq> None"
  by (rule thread_step_enabled) auto

lemma some_thread_enabled:
  assumes lo: "lock_owned ts st" and nd: "\<not> all_done ts"
  shows "\<exists>i<length ts. thread_step s (ts ! i) st \<noteq> None"
proof -
  from nd obtain j where j: "j < length ts" "\<And>r. t_pc (ts ! j) \<noteq> Done r"
    by (auto simp: all_done_def)
  show ?thesis
  proof (cases "\<exists>m. t_pc (ts ! j) = AtLock m")
    case False
    with j have "thread_step s (ts ! j) st \<noteq> None"
      by (intro thread_step_enabled) auto
    with j(1) show ?thesis by blast
  next
    case True
    then obtain m where m: "t_pc (ts ! j) = AtLock m" ..
    show ?thesis
    proof (cases "m \<in> locked st")
      case False
      with m have "thread_step s (ts ! j) st \<noteq> None" by (simp add: step_simps)
      with j(1) show ?thesis by blast
    next
      case True
      with lo obtain k where "k < length ts" "in_cs (t_pc (ts ! k))"
        by (auto simp: lock_owned_def)
      with in_cs_enabled [of "ts ! k" s st] show ?thesis by blast
    qed
  qed
qed

lemma moves_total_update:
  assumes "i < length ts" "moves_left (t_pc t') < moves_left (t_pc (ts ! i))"
  shows "moves_total (ts[i := t']) < moves_total ts"
proof -
  let ?xs = "map (\<lambda>t. moves_left (t_pc t)) ts"
  from assms(1) have i: "i < length ?xs" by simp
  then have le: "?xs ! i \<le> sum_list ?xs" by (rule elem_le_sum_list)
  have "sum_list (?xs[i := moves_left (t_pc t')])
      = sum_list ?xs + moves_left (t_pc t') - ?xs ! i"
    using i by (rule sum_list_update)
  also have "\<dots> < sum_list ?xs"
    using le assms by simp
  finally show ?thesis by (simp add: moves_total_def map_update)
qed

lemma all_calls_can_return:
  assumes env: "cycle_succeeds s u mc"
  shows "coalescing s u mc (ts, st) \<Longrightarrow>
     \<exists>more. all_done (fst (run s more (ts, st)))"
proof (induction "moves_total ts" arbitrary: ts st rule: less_induct)
  case less
  show ?case
  proof (cases "all_done ts")
    case True
    then have "all_done (fst (run s [] (ts, st)))" by (simp add: run_def)
    then show ?thesis ..
  next
    case False
    from less.prems have lo: "lock_owned ts st" by (simp add: coalescing_def)
    from some_thread_enabled [OF lo False] obtain i t' st'
      where i: "i < length ts" and step: "thread_step s (ts ! i) st = Some (t', st')"
      by (metis not_None_eq old.prod.exhaust)
    then have sys: "sys_step s i (ts, st) = (ts[i := t'], st')"
      by (simp add: sys_step_def)
    from coalescing_step [OF env less.prems, of i] sys
    have inv': "coalescing s u mc (ts[i := t'], st')" by simp
    from moves_total_update [OF i thread_step_moves_left [OF step]]
    have "moves_total (ts[i := t']) < moves_total ts" .
    from less.hyps [OF this inv'] obtain more
      where "all_done (fst (run s more (ts[i := t'], st')))" ..
    with sys have "all_done (fst (run s (i # more) (ts, st)))" by (simp add: run_def)
    then show ?thesis ..
  qed
qed

lemma sys_step_length: "length (fst (sys_step s i cfg)) = length (fst cfg)"
  by (cases cfg) (auto simp: sys_step_def split: option.splits)

lemma run_length: "length (fst (run s sched cfg)) = length (fst cfg)"
proof (induction sched arbitrary: cfg)
  case Nil
  then show ?case by (simp add: run_def)
next
  case (Cons i sched)
  have "run s (i # sched) cfg = run s sched (sys_step s i cfg)" by (simp add: run_def)
  with Cons [of "sys_step s i cfg"] sys_step_length [of s i cfg] show ?case by simp
qed

lemma all_done_pcs: "all_done ts \<longleftrightarrow> (\<forall>p\<in>set (map t_pc ts). \<exists>r. p = Done r)"
proof
  assume "all_done ts"
  then show "\<forall>p\<in>set (map t_pc ts). \<exists>r. p = Done r"
    by (auto simp: all_done_def in_set_conv_nth)
next
  assume a: "\<forall>p\<in>set (map t_pc ts). \<exists>r. p = Done r"
  show "all_done ts"
    unfolding all_done_def
  proof (intro allI impI)
    fix j assume "j < length ts"
    then have "t_pc (ts ! j) \<in> set (map t_pc ts)" by simp
    with a show "\<exists>r. t_pc (ts ! j) = Done r" by blast
  qed
qed


lemma filter_at_most_one:
  assumes "\<And>j k. j < length xs \<Longrightarrow> k < length xs \<Longrightarrow> P (xs ! j) \<Longrightarrow> P (xs ! k) \<Longrightarrow> j = k"
  shows "length (filter P xs) \<le> 1"
  using assms
proof (induction xs)
  case Nil
  then show ?case by simp
next
  case (Cons x xs)
  have tl: "j = k" if "j < length xs" "k < length xs" "P (xs ! j)" "P (xs ! k)" for j k
    using Cons.prems [of "Suc j" "Suc k"] that by simp
  show ?case
  proof (cases "P x")
    case False
    with Cons.IH [OF tl] show ?thesis by simp
  next
    case True
    have "\<not> P y" if "y \<in> set xs" for y
    proof
      assume "P y"
      from that obtain j where "j < length xs" "xs ! j = y" by (auto simp: in_set_conv_nth)
      with Cons.prems [of 0 "Suc j"] True \<open>P y\<close> show False by simp
    qed
    then have "filter P xs = []" by (simp add: filter_empty_conv)
    with True show ?thesis by simp
  qed
qed

lemma fetching_in_cs: "fetching p \<Longrightarrow> in_cs p"
  by (cases p) simp_all

lemma fetching_not_warm: "fetching p \<Longrightarrow> \<not> warm_pc mc p"
  by (cases p) simp_all

lemma coalescing_fetching:
  assumes "coalescing s u mc (ts, st)"
  shows "length (filter (\<lambda>t. fetching (t_pc t)) ts) \<le> 1"
proof -
  from assms have "cold s u mc ts st \<or> warm s u mc ts st" by (simp add: coalescing_def)
  then show ?thesis
  proof
    assume "cold s u mc ts st"
    then have "\<And>j k. j < length ts \<Longrightarrow> k < length ts \<Longrightarrow> in_cs (t_pc (ts ! j))
         \<Longrightarrow> in_cs (t_pc (ts ! k)) \<Longrightarrow> j = k"
      by (auto simp: cold_def)
    then show ?thesis
      by (intro filter_at_most_one) (auto dest: fetching_in_cs)
  next
    assume w: "warm s u mc ts st"
    have "\<not> fetching (t_pc t)" if "t \<in> set ts" for t
    proof -
      from that obtain j where "j < length ts" "ts ! j = t" by (auto simp: in_set_conv_nth)
      with w have "warm_pc mc (t_pc t)" by (auto simp: warm_def)
      with fetching_not_warm show ?thesis by blast
    qed
    then have "filter (\<lambda>t. fetching (t_pc t)) ts = []" by (simp add: filter_empty_conv)
    then show ?thesis by simp
  qed
qed

lemma example_cycle:
  "cycle_succeeds (test_server (page_backend ''<p> hi </p>'') strip_spaces NoFault)
     ''example.com'' ''<p>hi</p>''"
  by (simp add: cycle_succeeds_def test_codec_sound)
    (simp add: test_server_def page_backend_def strip_spaces_def)


section \<open>Single flight\<close>

text \<open>
  C1, as amended. Let any number of goroutines call \<open>Get\<close> with the same
  identifier \<open>u\<close>, which has no cache entry, while no lock is held and the
  registry has no entry for \<open>u\<close>; let the cycle for \<open>u\<close> succeed with content
  \<open>mc\<close>. Then under every schedule: the backend is invoked for \<open>u\<close> at most once,
  so at most one goroutine is inside the backend call at any time; every call that has returned has returned \<open>mc\<close>; once all calls have returned
  the backend has been invoked exactly once; and from every point the calls can all
  still return (no goroutine is stuck for good).
\<close>

theorem single_flight_when_cycle_succeeds:
  assumes env: "cycle_succeeds s u mc"
    and init: "\<forall>t\<in>set ts. t_url t = u \<and> t_pc t = AtGet"
      "files st (cachePath s u) = None" "urlLocks st u = None" "locked st = {}"
      "fetch_count u st = 0"
  shows "fetch_count u (snd (run s sched (ts, st))) \<le> 1
     \<and> length (filter (\<lambda>t. fetching (t_pc t)) (fst (run s sched (ts, st)))) \<le> 1
     \<and> (\<forall>t\<in>set (fst (run s sched (ts, st))). \<forall>r. t_pc t = Done r \<longrightarrow> r = Inr mc)
     \<and> (ts \<noteq> [] \<and> all_done (fst (run s sched (ts, st)))
          \<longrightarrow> fetch_count u (snd (run s sched (ts, st))) = 1)
     \<and> (\<exists>more. all_done (fst (run s (sched @ more) (ts, st))))"
proof -
  obtain ts' st' where r: "run s sched (ts, st) = (ts', st')" by (cases "run s sched (ts, st)")
  from coalescing_run [OF env coalescing_init [OF init], of sched] r
  have inv: "coalescing s u mc (ts', st')" by simp
  from run_length [of s sched "(ts, st)"] r have len: "length ts' = length ts" by simp
  have a: "fetch_count u st' \<le> 1" using inv by (rule coalescing_count)
  have a': "length (filter (\<lambda>t. fetching (t_pc t)) ts') \<le> 1"
    using inv by (rule coalescing_fetching)
  have b: "\<forall>t\<in>set ts'. \<forall>r. t_pc t = Done r \<longrightarrow> r = Inr mc"
    using coalescing_result [OF inv] by (auto simp: in_set_conv_nth)
  have c: "fetch_count u st' = 1" if "ts \<noteq> []" "all_done ts'"
    using that len by (intro coalescing_done_count [OF inv]) auto
  from all_calls_can_return [OF env inv] obtain more
    where "all_done (fst (run s more (ts', st')))" ..
  with r have d: "\<exists>more. all_done (fst (run s (sched @ more) (ts, st)))"
    by (auto simp: run_append)
  from a a' b c d r show ?thesis by simp
qed


theorem single_flight_when_cycle_succeeds_witness:
  "cycle_succeeds (test_server (page_backend ''<p> hi </p>'') strip_spaces NoFault)
     ''example.com'' ''<p>hi</p>''
   \<and> map t_pc (fst (run (test_server (page_backend ''<p> hi </p>'') strip_spaces NoFault)
        [0,0,0,0,0, 1,1, 0,0, 2,2, 0,0, 2, 0,0, 1,1,1,1,1, 2,2,2,2,2]
        (replicate 3 (request ''example.com'' False), empty_state)))
       = [Done (Inr ''<p>hi</p>''), Done (Inr ''<p>hi</p>''), Done (Inr ''<p>hi</p>'')]
   \<and> fetch_count ''example.com''
        (snd (run (test_server (page_backend ''<p> hi </p>'') strip_spaces NoFault)
          [0,0,0,0,0, 1,1, 0,0, 2,2, 0,0, 2, 0,0, 1,1,1,1,1, 2,2,2,2,2]
          (replicate 3 (request ''example.com'' False), empty_state))) = 1"
proof -
  let ?s = "test_server (page_backend ''<p> hi </p>'') strip_spaces NoFault"
  let ?sched = "[0,0,0,0,0, 1,1, 0,0, 2,2, 0,0, 2, 0,0, 1,1,1,1,1, 2,2,2,2,2] :: nat list"
  let ?ts = "replicate 3 (request ''example.com'' False)"
  have pcs: "map t_pc (fst (run ?s ?sched (?ts, empty_state)))
       = [Done (Inr ''<p>hi</p>''), Done (Inr ''<p>hi</p>''), Done (Inr ''<p>hi</p>'')]"
    by code_simp
  then have fin: "all_done (fst (run ?s ?sched (?ts, empty_state)))"
    by (simp add: all_done_pcs)
  have h1: "\<forall>t\<in>set ?ts. t_url t = ''example.com'' \<and> t_pc t = AtGet"
    by (simp add: request_def)
  have h2: "files empty_state (cachePath ?s ''example.com'') = None"
    "urlLocks empty_state ''example.com'' = None" "locked empty_state = {}"
    "fetch_count ''example.com'' empty_state = 0"
    by (simp_all add: empty_state_def fetch_count_def)
  have ne: "?ts \<noteq> []" by simp
  from single_flight_when_cycle_succeeds [OF example_cycle h1 h2, of ?sched] ne fin
  have "fetch_count ''example.com'' (snd (run ?s ?sched (?ts, empty_state))) = 1"
    by blast
  with example_cycle pcs show ?thesis by blast
qed


text \<open>
  C1 as stated fails when the first cycle leaves no cache entry. Two concurrent
  \<open>Get("example.com", false)\<close> on an empty cache whose directory cannot be written
  (\<open>os.Create\<close> fails): goroutine 1 waits for the mutex while goroutine 0 fetches;
  once it holds the mutex it finds no entry and fetches again. Both calls return
  the content, and the backend has been invoked twice.
\<close>

theorem second_caller_fetches_again:
  "map t_pc (fst (run (test_server (page_backend ''<p> hi </p>'') strip_spaces CreateFails)
      [0,0,0,0,0, 1,1, 0,0,0,0, 1,1,1,1,1,1,1] (requests 2 ''example.com'')))
     = [Done (Inr ''<p>hi</p>''), Done (Inr ''<p>hi</p>'')]
   \<and> fetch_count ''example.com''
        (snd (run (test_server (page_backend ''<p> hi </p>'') strip_spaces CreateFails)
          [0,0,0,0,0, 1,1, 0,0,0,0, 1,1,1,1,1,1,1] (requests 2 ''example.com''))) = 2"
  by code_simp

end
